theory Spec2Isabelle
  imports Main
begin

section \<open>Line store\<close>

text \<open>
  One record per text block of the document, as the folding API sees it: the text of the
  block, and the folding state that \<^verbatim>\<open>TextBlockHelper\<close> packs into the
  block's user state, together with the block's visibility flag.
\<close>

record line =
  line_text :: string
  fold_level :: int
  is_trigger :: bool
  trigger_collapsed :: bool
  visible :: bool

type_synonym document = "line list"

text \<open>
  A block handle is its block number. Every number outside the document stands for the
  invalid block that \<^verbatim>\<open>QTextBlock.next()\<close> and
  \<^verbatim>\<open>QTextBlock.previous()\<close> return at the document boundaries and
  \<^verbatim>\<open>findBlockByNumber\<close> returns out of range (and for Python's
  \<^verbatim>\<open>None\<close> passed as previous block); Qt reports block number
  \<open>-1\<close> and the empty text for it. That invalid block is the one
  \<^verbatim>\<open>QTextDocument.end()\<close> gives: it stands after the last block, and its
  \<^verbatim>\<open>previous()\<close> is the last block of the document.
\<close>

type_synonym block = int

datatype error = ValueError | ZeroDivisionError | NotImplementedError

definition new_line :: "string \<Rightarrow> line" where
  "new_line t = \<lparr>line_text = t, fold_level = 0, is_trigger = False,
                 trigger_collapsed = False, visible = True\<rparr>"

definition isValid :: "document \<Rightarrow> block \<Rightarrow> bool" where
  "isValid d b = (0 \<le> b \<and> b < int (length d))"

definition blockNumber :: "document \<Rightarrow> block \<Rightarrow> int" where
  "blockNumber d b = (if isValid d b then b else -1)"

definition block_next :: "document \<Rightarrow> block \<Rightarrow> block" where
  "block_next d b = (if isValid d b \<and> isValid d (b + 1) then b + 1 else -1)"

definition block_previous :: "document \<Rightarrow> block \<Rightarrow> block" where
  "block_previous d b =
     (if isValid d b then (if isValid d (b - 1) then b - 1 else -1)
      else int (length d) - 1)"

definition block_text :: "document \<Rightarrow> block \<Rightarrow> string" where
  "block_text d b = (if isValid d b then line_text (d ! nat b) else [])"

definition firstBlock :: "document \<Rightarrow> block" where
  "firstBlock d = (if isValid d 0 then 0 else -1)"

definition findBlockByNumber :: "document \<Rightarrow> int \<Rightarrow> block" where
  "findBlockByNumber d n = (if isValid d n then n else -1)"

definition isVisible :: "document \<Rightarrow> block \<Rightarrow> bool" where
  "isVisible d b = (if isValid d b then visible (d ! nat b) else True)"

definition setVisible :: "document \<Rightarrow> block \<Rightarrow> bool \<Rightarrow> document" where
  "setVisible d b v = (if isValid d b then d[nat b := (d ! nat b)\<lparr>visible := v\<rparr>] else d)"

subsection \<open>TextBlockHelper\<close>

text \<open>
  Modelled from the spec: \<^verbatim>\<open>pyqode.core.api.utils.TextBlockHelper\<close> is
  imported by the folding module but its source is not among the files under study. The
  spec describes it as per-line get/set access to the fold level, the trigger flag and the
  trigger-collapsed flag, with fold level defaulting to 0; at the invalid sentinel block
  (and for \<^verbatim>\<open>None\<close>) a read gives the default and a write does nothing.
\<close>

definition get_fold_lvl :: "document \<Rightarrow> block \<Rightarrow> int" where
  "get_fold_lvl d b = (if isValid d b then fold_level (d ! nat b) else 0)"

definition set_fold_lvl :: "document \<Rightarrow> block \<Rightarrow> int \<Rightarrow> document" where
  "set_fold_lvl d b v =
     (if isValid d b then d[nat b := (d ! nat b)\<lparr>fold_level := v\<rparr>] else d)"

definition is_fold_trigger :: "document \<Rightarrow> block \<Rightarrow> bool" where
  "is_fold_trigger d b = (if isValid d b then is_trigger (d ! nat b) else False)"

definition set_fold_trigger :: "document \<Rightarrow> block \<Rightarrow> bool \<Rightarrow> document" where
  "set_fold_trigger d b v =
     (if isValid d b then d[nat b := (d ! nat b)\<lparr>is_trigger := v\<rparr>] else d)"

definition get_fold_trigger_state :: "document \<Rightarrow> block \<Rightarrow> bool" where
  "get_fold_trigger_state d b =
     (if isValid d b then trigger_collapsed (d ! nat b) else False)"

definition set_fold_trigger_state :: "document \<Rightarrow> block \<Rightarrow> bool \<Rightarrow> document" where
  "set_fold_trigger_state d b v =
     (if isValid d b then d[nat b := (d ! nat b)\<lparr>trigger_collapsed := v\<rparr>] else d)"

subsection \<open>Python strings\<close>

text \<open>
  \<^verbatim>\<open>str.strip()\<close> and \<^verbatim>\<open>str.lstrip()\<close> without argument remove
  whitespace. A character of the model is a code point below 256; of these Python counts
  as whitespace the codes 9 to 13, 28 to 32, 133 and 160.
\<close>

definition py_isspace :: "char \<Rightarrow> bool" where
  "py_isspace c =
     (let n = (of_char c :: nat)
      in (9 \<le> n \<and> n \<le> 13) \<or> (28 \<le> n \<and> n \<le> 32) \<or> n = 133 \<or> n = 160)"

definition lstrip :: "string \<Rightarrow> string" where
  "lstrip s = dropWhile py_isspace s"

definition rstrip :: "string \<Rightarrow> string" where
  "rstrip s = rev (dropWhile py_isspace (rev s))"

definition strip :: "string \<Rightarrow> string" where
  "strip s = rstrip (lstrip s)"

section \<open>Fold detectors\<close>

text \<open>
  \<^verbatim>\<open>detect_fold_level(prev_block, block)\<close> is the pluggable part of a detector.
  It may read the document and may raise. The base class raises
  \<^verbatim>\<open>NotImplementedError\<close>; \<^verbatim>\<open>IndentFoldDetector\<close> divides the width
  of the leading whitespace by the editor's \<^verbatim>\<open>tab_length\<close>.
\<close>

type_synonym detector = "document \<Rightarrow> block \<Rightarrow> block \<Rightarrow> error + int"

definition FoldDetector_detect_fold_level :: detector where
  "FoldDetector_detect_fold_level d prev_block blk = Inl NotImplementedError"

definition IndentFoldDetector_detect_fold_level :: "int \<Rightarrow> detector" where
  "IndentFoldDetector_detect_fold_level tab_length d prev_block blk =
     (let txt = block_text d blk in
      if tab_length = 0 then Inl ZeroDivisionError
      else Inr ((int (length txt) - int (length (lstrip txt))) div tab_length))"

definition sys_maxsize :: int where
  "sys_maxsize = 2 ^ 63 - 1"

subsection \<open>process\_block\<close>

text \<open>
  The loop of \<^verbatim>\<open>process_block\<close> that walks back over the blank blocks before
  the current one, giving each the new fold level; it returns the block it stopped at.
\<close>

function apply_on_previous_blank_lines ::
    "document \<Rightarrow> int \<Rightarrow> block \<Rightarrow> document \<times> block" where
  "apply_on_previous_blank_lines d fold_lvl blk =
     (if isValid d blk \<and> strip (block_text d blk) = []
      then apply_on_previous_blank_lines (set_fold_lvl d blk fold_lvl) fold_lvl
             (block_previous d blk)
      else (d, blk))"
  by pat_completeness auto
termination
  by (relation "measure (\<lambda>(d, l, b). nat (b + 1))")
     (auto simp: isValid_def block_previous_def)

declare apply_on_previous_blank_lines.simps [simp del]

definition process_block ::
    "detector \<Rightarrow> int \<Rightarrow> document \<Rightarrow> block \<Rightarrow> block \<Rightarrow> string \<Rightarrow> error + document" where
  "process_block detect_fold_level limit d current_block previous_block txt =
     (let prev_fold_level = get_fold_lvl d previous_block in
      case (if strip txt = [] then Inr prev_fold_level
            else (case detect_fold_level d previous_block current_block of
                    Inl e \<Rightarrow> Inl e
                  | Inr lvl \<Rightarrow> Inr (if lvl > limit then limit else lvl))) of
        Inl e \<Rightarrow> Inl e
      | Inr fold_lvl \<Rightarrow>
          let d1 = (if fold_lvl > prev_fold_level
                    then (case apply_on_previous_blank_lines d fold_lvl
                                 (block_previous d current_block) of
                            (d', blk) \<Rightarrow> set_fold_trigger d' blk True)
                    else d);
              delta_abs = \<bar>fold_lvl - prev_fold_level\<bar>;
              fold_lvl2 = (if delta_abs > 1 \<and> fold_lvl > prev_fold_level
                           then prev_fold_level + 1 else fold_lvl);
              d2 = (if strip txt \<noteq> []
                    then set_fold_trigger d1 previous_block (fold_lvl2 > prev_fold_level)
                    else d1);
              d3 = set_fold_lvl d2 current_block fold_lvl2;
              prev = block_previous d3 current_block
          in Inr (if isValid d3 prev \<and> strip (block_text d3 prev) = []
                     \<and> is_fold_trigger d3 prev
                  then set_fold_trigger_state
                         (set_fold_trigger
                            (set_fold_trigger_state d3 current_block
                               (get_fold_trigger_state d3 prev))
                            prev False)
                         prev False
                  else d3))"

subsection \<open>The highlighting pass\<close>

text \<open>
  Modelled from the spec: the caller of \<^verbatim>\<open>process_block\<close> (the syntax
  highlighter) is not among the files under study. The spec has the processor invoked once
  per line in document order, with the current line's text and with the nearest preceding
  non-blank line as previous line, or none when no non-blank line precedes.
\<close>

function find_prev_non_blank_block :: "document \<Rightarrow> block \<Rightarrow> block" where
  "find_prev_non_blank_block d blk =
     (if isValid d blk \<and> strip (block_text d blk) = []
      then find_prev_non_blank_block d (block_previous d blk)
      else blk)"
  by pat_completeness auto
termination
  by (relation "measure (\<lambda>(d, b). nat (b + 1))")
     (auto simp: isValid_def block_previous_def)

declare find_prev_non_blank_block.simps [simp del]

fun process_lines ::
    "detector \<Rightarrow> int \<Rightarrow> document \<Rightarrow> block list \<Rightarrow> error + document" where
  "process_lines det limit d [] = Inr d"
| "process_lines det limit d (b # bs) =
     (case process_block det limit d b
             (find_prev_non_blank_block d (block_previous d b)) (block_text d b) of
        Inl e \<Rightarrow> Inl e
      | Inr d' \<Rightarrow> process_lines det limit d' bs)"

definition process_document :: "detector \<Rightarrow> int \<Rightarrow> document \<Rightarrow> error + document" where
  "process_document det limit d = process_lines det limit d (map int [0..<length d])"

section \<open>Fold scopes\<close>

text \<open>
  A \<^verbatim>\<open>FoldScope\<close> holds its trigger block and nothing else; the constructor
  raises \<^verbatim>\<open>ValueError\<close> on a block that is not a fold trigger and writes
  nothing to the document.
\<close>

datatype fold_scope = FoldScope (scope_trigger: block)

definition FoldScope_init :: "document \<Rightarrow> block \<Rightarrow> error + fold_scope" where
  "FoldScope_init d blk =
     (if \<not> is_fold_trigger d blk then Inl ValueError else Inr (FoldScope blk))"

definition trigger_level :: "document \<Rightarrow> fold_scope \<Rightarrow> int" where
  "trigger_level d s = get_fold_lvl d (scope_trigger s)"

definition scope_level :: "document \<Rightarrow> fold_scope \<Rightarrow> int" where
  "scope_level d s = get_fold_lvl d (block_next d (scope_trigger s))"

definition collapsed :: "document \<Rightarrow> fold_scope \<Rightarrow> bool" where
  "collapsed d s = get_fold_trigger_state d (scope_trigger s)"

text \<open>The forward loop of \<^verbatim>\<open>get_range\<close>; it always ends.\<close>

function get_range_expand :: "document \<Rightarrow> int \<Rightarrow> block \<Rightarrow> int \<Rightarrow> block \<times> int" where
  "get_range_expand d ref_lvl blk last_line =
     (if isValid d blk \<and> get_fold_lvl d blk > ref_lvl
      then get_range_expand d ref_lvl (block_next d blk) (blockNumber d blk)
      else (blk, last_line))"
  by pat_completeness auto
termination
  by (relation "measure (\<lambda>(d, r, b, l). if isValid d b then length d - nat b else 0)")
     (auto simp: isValid_def block_next_def)

declare get_range_expand.simps [simp del]

text \<open>
  The loop of \<^verbatim>\<open>get_range\<close> that drops the trailing blank lines. It runs while
  the block number is non-zero and the text is blank. It starts on an invalid block when
  the trigger is the last line (the block number is \<open>-1\<close> and the text empty
  there) and then steps to the last block. The recursion is not structural, and in a
  document with no block at all it would not end: not returning is the value \<open>None\<close>.
\<close>

partial_function (option) get_range_trim :: "document \<Rightarrow> block \<Rightarrow> int \<Rightarrow> int option" where
  "get_range_trim d blk last_line =
     (if blockNumber d blk \<noteq> 0 \<and> strip (block_text d blk) = []
      then get_range_trim d (block_previous d blk) (blockNumber d (block_previous d blk))
      else Some last_line)"

declare get_range_trim.simps [code]

definition get_range :: "document \<Rightarrow> fold_scope \<Rightarrow> bool \<Rightarrow> (int \<times> int) option" where
  "get_range d s ignore_blank_lines =
     (let ref_lvl = trigger_level d s;
          first_line = blockNumber d (scope_trigger s);
          blk = block_next d (scope_trigger s);
          last_line = blockNumber d blk;
          lvl = scope_level d s;
          ref_lvl = (if ref_lvl = lvl then ref_lvl - 1 else ref_lvl)
      in case get_range_expand d ref_lvl blk last_line of
           (blk, last_line) \<Rightarrow>
             if ignore_blank_lines \<and> last_line \<noteq> 0
             then (case get_range_trim d (findBlockByNumber d last_line) last_line of
                     None \<Rightarrow> None
                   | Some last_line \<Rightarrow> Some (first_line, last_line))
             else Some (first_line, last_line))"

function fold_hide :: "document \<Rightarrow> block \<Rightarrow> int \<Rightarrow> document" where
  "fold_hide d blk end_line =
     (if blockNumber d blk \<le> end_line \<and> isValid d blk
      then fold_hide (setVisible d blk False) (block_next d blk) end_line
      else d)"
  by pat_completeness auto
termination
  by (relation "measure (\<lambda>(d, b, e). if isValid d b then length d - nat b else 0)")
     (auto simp: isValid_def block_next_def setVisible_def)

declare fold_hide.simps [simp del]

definition FoldScope_fold :: "document \<Rightarrow> fold_scope \<Rightarrow> document option" where
  "FoldScope_fold d s =
     (case get_range d s True of
        None \<Rightarrow> None
      | Some (start_line, end_line) \<Rightarrow>
          (let d1 = set_fold_trigger_state d (scope_trigger s) True
           in Some (fold_hide d1 (block_next d1 (scope_trigger s)) end_line)))"

text \<open>
  The generators \<^verbatim>\<open>blocks\<close> and \<^verbatim>\<open>child_regions\<close> read the range,
  the fold levels and the trigger flags only, and the loops of \<^verbatim>\<open>unfold\<close>
  that consume them write visibility and collapsed flags only: producing the whole list
  first gives the same blocks as producing it on demand.
\<close>

function blocks_from :: "document \<Rightarrow> int \<Rightarrow> block \<Rightarrow> int \<Rightarrow> block list" where
  "blocks_from d ref_lvl blk end_line =
     (if blockNumber d blk \<le> end_line \<and> isValid d blk
      then (let lvl = get_fold_lvl d blk; trigger = is_fold_trigger d blk
            in (if lvl = ref_lvl \<and> \<not> trigger then [blk] else []))
           @ blocks_from d ref_lvl (block_next d blk) end_line
      else [])"
  by pat_completeness auto
termination
  by (relation "measure (\<lambda>(d, r, b, e). if isValid d b then length d - nat b else 0)")
     (auto simp: isValid_def block_next_def)

declare blocks_from.simps [simp del]

definition blocks :: "document \<Rightarrow> fold_scope \<Rightarrow> bool \<Rightarrow> block list option" where
  "blocks d s ignore_blank_lines =
     (case get_range d s ignore_blank_lines of
        None \<Rightarrow> None
      | Some (start_line, end_line) \<Rightarrow>
          Some (blocks_from d (scope_level d s) (block_next d (scope_trigger s)) end_line))"

function child_regions_from :: "document \<Rightarrow> int \<Rightarrow> block \<Rightarrow> int \<Rightarrow> fold_scope list" where
  "child_regions_from d ref_lvl blk end_line =
     (if blockNumber d blk \<le> end_line \<and> isValid d blk
      then (let lvl = get_fold_lvl d blk; trigger = is_fold_trigger d blk
            in (if lvl = ref_lvl \<and> trigger then [FoldScope blk] else []))
           @ child_regions_from d ref_lvl (block_next d blk) end_line
      else [])"
  by pat_completeness auto
termination
  by (relation "measure (\<lambda>(d, r, b, e). if isValid d b then length d - nat b else 0)")
     (auto simp: isValid_def block_next_def)

declare child_regions_from.simps [simp del]

definition child_regions :: "document \<Rightarrow> fold_scope \<Rightarrow> fold_scope list option" where
  "child_regions d s =
     (case get_range d s True of
        None \<Rightarrow> None
      | Some (start_line, end_line) \<Rightarrow>
          Some (child_regions_from d (scope_level d s) (block_next d (scope_trigger s)) end_line))"

text \<open>
  The loop of \<^verbatim>\<open>unfold\<close> that shows the lines after the body of a collapsed
  child again, walking back from the end of its range.
\<close>

partial_function (option) unfold_reveal :: "document \<Rightarrow> block \<Rightarrow> int \<Rightarrow> document option" where
  "unfold_reveal d blk bstart =
     (if blockNumber d blk > bstart
      then unfold_reveal (setVisible d blk True) (block_previous d blk) bstart
      else Some d)"

declare unfold_reveal.simps [code]

text \<open>
  \<^verbatim>\<open>unfold\<close> calls itself on the child regions that are not collapsed. The
  recursion is bounded by fuel: one unit per nesting level. A child region's trigger lies
  strictly below the trigger of its parent, so the nesting is never deeper than the
  document is long, and \<^verbatim>\<open>FoldScope_unfold\<close> starts with one unit more than
  that. The value \<open>None\<close> stands for a call that does not return.
\<close>

function unfold_fuel :: "nat \<Rightarrow> document \<Rightarrow> fold_scope \<Rightarrow> document option"
  and unfold_regions :: "nat \<Rightarrow> document \<Rightarrow> fold_scope list \<Rightarrow> document option" where
  "unfold_fuel 0 d s = None"
| "unfold_fuel (Suc n) d s =
     (let d1 = setVisible d (scope_trigger s) True;
          d2 = set_fold_trigger_state d1 (scope_trigger s) False
      in case blocks d2 s False of
           None \<Rightarrow> None
         | Some bs \<Rightarrow>
             (let d3 = foldl (\<lambda>d b. setVisible d b True) d2 bs
              in case child_regions d3 s of
                   None \<Rightarrow> None
                 | Some rs \<Rightarrow> unfold_regions n d3 rs))"
| "unfold_regions n d [] = Some d"
| "unfold_regions n d (region # rs) =
     (if \<not> collapsed d region
      then (case unfold_fuel n d region of
              None \<Rightarrow> None
            | Some d' \<Rightarrow> unfold_regions n d' rs)
      else (case get_range d region True of
              None \<Rightarrow> None
            | Some (start_line, bstart) \<Rightarrow>
                (case get_range d region False of
                   None \<Rightarrow> None
                 | Some (u, bend) \<Rightarrow>
                     (let d1 = setVisible d (findBlockByNumber d start_line) True
                      in case unfold_reveal d1 (findBlockByNumber d1 bend) bstart of
                           None \<Rightarrow> None
                         | Some d2 \<Rightarrow> unfold_regions n d2 rs))))"
  by pat_completeness auto
termination
  by (relation "inv_image (less_than <*lex*> less_than)
                  (\<lambda>x. case x of Inl (n, d, s) \<Rightarrow> (2 * n, 0)
                             | Inr (n, d, rs) \<Rightarrow> (2 * n + 1, length rs))")
     auto

definition FoldScope_unfold :: "document \<Rightarrow> fold_scope \<Rightarrow> document option" where
  "FoldScope_unfold d s = unfold_fuel (Suc (length d)) d s"

section \<open>Debug dump\<close>

definition digit_char :: "nat \<Rightarrow> char" where
  "digit_char n = char_of (48 + n)"

function str_nat :: "nat \<Rightarrow> string" where
  "str_nat n = (if n < 10 then [digit_char n] else str_nat (n div 10) @ [digit_char (n mod 10)])"
  by pat_completeness auto
termination
  by (relation "measure id") auto

declare str_nat.simps [simp del]

definition str_int :: "int \<Rightarrow> string" where
  "str_int i = (if i < 0 then CHR ''-'' # str_nat (nat (- i)) else str_nat (nat i))"

text \<open>
  \<^verbatim>\<open>print_tree\<close> writes one line per \<^verbatim>\<open>print\<close> call to its file;
  the model returns the lines written, in order.
\<close>

function print_tree_from :: "document \<Rightarrow> bool \<Rightarrow> block \<Rightarrow> string list" where
  "print_tree_from d print_blocks blk =
     (if isValid d blk
      then (let trigger = is_fold_trigger d blk;
                trigger_state = get_fold_trigger_state d blk;
                lvl = get_fold_lvl d blk;
                vis = (if isVisible d blk then ''V'' else ''I'')
            in (if trigger
                then [''l'' @ str_int (blockNumber d blk + 1) @ '':'' @ str_int lvl
                        @ (if trigger_state then ''+'' else ''-'') @ vis]
                else if print_blocks
                then [''l'' @ str_int (blockNumber d blk + 1) @ '':'' @ str_int lvl @ vis]
                else []))
           @ print_tree_from d print_blocks (block_next d blk)
      else [])"
  by pat_completeness auto
termination
  by (relation "measure (\<lambda>(d, p, b). if isValid d b then length d - nat b else 0)")
     (auto simp: isValid_def block_next_def)

declare print_tree_from.simps [simp del]

definition print_tree :: "document \<Rightarrow> bool \<Rightarrow> string list" where
  "print_tree d print_blocks = print_tree_from d print_blocks (firstBlock d)"

section \<open>The example document\<close>

definition scenario1 :: document where
  "scenario1 = map new_line [''def f():'', ''    x = 1'', ''    y = 2'', ''z = 3'']"

definition scenario1_processed :: document where
  "scenario1_processed =
     [\<lparr>line_text = ''def f():'', fold_level = 0, is_trigger = True,
        trigger_collapsed = False, visible = True\<rparr>,
      \<lparr>line_text = ''    x = 1'', fold_level = 1, is_trigger = False,
        trigger_collapsed = False, visible = True\<rparr>,
      \<lparr>line_text = ''    y = 2'', fold_level = 1, is_trigger = False,
        trigger_collapsed = False, visible = True\<rparr>,
      \<lparr>line_text = ''z = 3'', fold_level = 0, is_trigger = False,
        trigger_collapsed = False, visible = True\<rparr>]"

section \<open>The state of a pass after its first lines\<close>

text \<open>
  What holds of the document \<open>d\<close> once the pass has processed the lines before line
  \<open>k\<close> of the document \<open>d0\<close> it started from. Texts and length are those of
  \<open>d0\<close>. For every processed non-blank line \<open>q\<close>, with \<open>p\<close> the block the
  pass found as its previous non-blank block: the level of \<open>q\<close> is at most one more
  than the level read at \<open>p\<close>; \<open>p\<close>, when it is a block, is a trigger exactly when
  \<open>q\<close> is deeper; the blank lines between them share one level, the level read at
  \<open>p\<close> when \<open>q\<close> is not deeper and at least the level of \<open>q\<close> otherwise. The
  blank lines since the last non-blank line have the level read there. A blank line
  followed by a processed line is no trigger. From the last processed non-blank line on,
  no line has become a trigger.
\<close>

definition pass_inv :: "document \<Rightarrow> nat \<Rightarrow> document \<Rightarrow> bool" where
  "pass_inv d0 k d =
     (length d = length d0
      \<and> (\<forall>i<length d0. line_text (d ! i) = line_text (d0 ! i))
      \<and> (\<forall>q<k. strip (line_text (d0 ! q)) \<noteq> [] \<longrightarrow>
            fold_level (d ! q) \<le> get_fold_lvl d (find_prev_non_blank_block d0 (int q - 1)) + 1
          \<and> (0 \<le> find_prev_non_blank_block d0 (int q - 1) \<longrightarrow>
               is_trigger (d ! nat (find_prev_non_blank_block d0 (int q - 1)))
                 = (fold_level (d ! q) > get_fold_lvl d (find_prev_non_blank_block d0 (int q - 1))))
          \<and> (\<forall>i. find_prev_non_blank_block d0 (int q - 1) < int i \<and> i < q \<longrightarrow>
                (fold_level (d ! q) \<le> get_fold_lvl d (find_prev_non_blank_block d0 (int q - 1))
                   \<longrightarrow> fold_level (d ! i) = get_fold_lvl d (find_prev_non_blank_block d0 (int q - 1)))
              \<and> (fold_level (d ! q) > get_fold_lvl d (find_prev_non_blank_block d0 (int q - 1))
                   \<longrightarrow> fold_level (d ! i) \<ge> fold_level (d ! q))
              \<and> fold_level (d ! i) = fold_level (d ! (q - 1))))
      \<and> (\<forall>i. find_prev_non_blank_block d0 (int k - 1) < int i \<and> i < k \<longrightarrow>
            fold_level (d ! i) = get_fold_lvl d (find_prev_non_blank_block d0 (int k - 1)))
      \<and> (\<forall>i. Suc i < k \<and> strip (line_text (d0 ! i)) = [] \<longrightarrow> \<not> is_trigger (d ! i))
      \<and> (\<forall>i<length d0. find_prev_non_blank_block d0 (int k - 1) \<le> int i \<longrightarrow>
            is_trigger (d ! i) \<longrightarrow> is_trigger (d0 ! i)))"

section \<open>Documents used as examples\<close>

text \<open>
  A collapsed trigger line \<open>def f():\<close> after the user pressed enter at its start: the
  new blank block 0 keeps the trigger state, the text moved to the new block 1.
\<close>

definition enter_doc :: document where
  "enter_doc =
     [\<lparr>line_text = [], fold_level = 0, is_trigger = True,
        trigger_collapsed = True, visible = True\<rparr>,
      \<lparr>line_text = ''def f():'', fold_level = 0, is_trigger = False,
        trigger_collapsed = False, visible = True\<rparr>,
      \<lparr>line_text = ''    x = 1'', fold_level = 1, is_trigger = False,
        trigger_collapsed = False, visible = False\<rparr>]"

definition enter_doc_processed :: document where
  "enter_doc_processed =
     [\<lparr>line_text = [], fold_level = 0, is_trigger = False,
        trigger_collapsed = False, visible = True\<rparr>,
      \<lparr>line_text = ''def f():'', fold_level = 0, is_trigger = False,
        trigger_collapsed = True, visible = True\<rparr>,
      \<lparr>line_text = ''    x = 1'', fold_level = 1, is_trigger = False,
        trigger_collapsed = False, visible = False\<rparr>]"

text \<open>
  A line indented by two levels directly under a line at level 0, and a document whose
  levels rise step by step and then drop by two.
\<close>

definition jump_doc :: document where
  "jump_doc = map new_line [''a'', ''        c'']"

definition jump_doc_processed :: document where
  "jump_doc_processed =
     [\<lparr>line_text = ''a'', fold_level = 0, is_trigger = True,
        trigger_collapsed = False, visible = True\<rparr>,
      \<lparr>line_text = ''        c'', fold_level = 1, is_trigger = False,
        trigger_collapsed = False, visible = True\<rparr>]"

definition steps_doc :: document where
  "steps_doc = map new_line [''a'', ''    b'', ''        c'', ''d'']"

definition steps_doc_processed :: document where
  "steps_doc_processed =
     [\<lparr>line_text = ''a'', fold_level = 0, is_trigger = True,
        trigger_collapsed = False, visible = True\<rparr>,
      \<lparr>line_text = ''    b'', fold_level = 1, is_trigger = True,
        trigger_collapsed = False, visible = True\<rparr>,
      \<lparr>line_text = ''        c'', fold_level = 2, is_trigger = False,
        trigger_collapsed = False, visible = True\<rparr>,
      \<lparr>line_text = ''d'', fold_level = 0, is_trigger = False,
        trigger_collapsed = False, visible = True\<rparr>]"

text \<open>
  The example document with a blank line under its first line, and a one-line document
  whose line still carries the trigger flag of an earlier pass (the lines under it were
  deleted).
\<close>

definition gap_doc :: document where
  "gap_doc = map new_line [''def f():'', [], ''    x = 1'']"

definition gap_doc_processed :: document where
  "gap_doc_processed =
     [\<lparr>line_text = ''def f():'', fold_level = 0, is_trigger = True,
        trigger_collapsed = False, visible = True\<rparr>,
      \<lparr>line_text = [], fold_level = 1, is_trigger = False,
        trigger_collapsed = False, visible = True\<rparr>,
      \<lparr>line_text = ''    x = 1'', fold_level = 1, is_trigger = False,
        trigger_collapsed = False, visible = True\<rparr>]"

definition stale_doc :: document where
  "stale_doc =
     [\<lparr>line_text = ''def f():'', fold_level = 0, is_trigger = True,
        trigger_collapsed = False, visible = True\<rparr>]"

text \<open>The example document after folding the scope of its line 0.\<close>

definition scenario1_folded :: document where
  "scenario1_folded =
     [\<lparr>line_text = ''def f():'', fold_level = 0, is_trigger = True,
        trigger_collapsed = True, visible = True\<rparr>,
      \<lparr>line_text = ''    x = 1'', fold_level = 1, is_trigger = False,
        trigger_collapsed = False, visible = False\<rparr>,
      \<lparr>line_text = ''    y = 2'', fold_level = 1, is_trigger = False,
        trigger_collapsed = False, visible = False\<rparr>,
      \<lparr>line_text = ''z = 3'', fold_level = 0, is_trigger = False,
        trigger_collapsed = False, visible = True\<rparr>]"

text \<open>
  The document with levels 0, 1, 2, 0 after folding the scope of its line 0, after then
  folding the scope of its line 1, and after then unfolding the scope of its line 1.
\<close>

definition steps_outer_folded :: document where
  "steps_outer_folded =
     [\<lparr>line_text = ''a'', fold_level = 0, is_trigger = True,
        trigger_collapsed = True, visible = True\<rparr>,
      \<lparr>line_text = ''    b'', fold_level = 1, is_trigger = True,
        trigger_collapsed = False, visible = False\<rparr>,
      \<lparr>line_text = ''        c'', fold_level = 2, is_trigger = False,
        trigger_collapsed = False, visible = False\<rparr>,
      \<lparr>line_text = ''d'', fold_level = 0, is_trigger = False,
        trigger_collapsed = False, visible = True\<rparr>]"

definition steps_inner_folded :: document where
  "steps_inner_folded =
     [\<lparr>line_text = ''a'', fold_level = 0, is_trigger = True,
        trigger_collapsed = True, visible = True\<rparr>,
      \<lparr>line_text = ''    b'', fold_level = 1, is_trigger = True,
        trigger_collapsed = True, visible = False\<rparr>,
      \<lparr>line_text = ''        c'', fold_level = 2, is_trigger = False,
        trigger_collapsed = False, visible = False\<rparr>,
      \<lparr>line_text = ''d'', fold_level = 0, is_trigger = False,
        trigger_collapsed = False, visible = True\<rparr>]"

definition steps_inner_unfolded :: document where
  "steps_inner_unfolded =
     [\<lparr>line_text = ''a'', fold_level = 0, is_trigger = True,
        trigger_collapsed = True, visible = True\<rparr>,
      \<lparr>line_text = ''    b'', fold_level = 1, is_trigger = True,
        trigger_collapsed = False, visible = True\<rparr>,
      \<lparr>line_text = ''        c'', fold_level = 2, is_trigger = False,
        trigger_collapsed = False, visible = True\<rparr>,
      \<lparr>line_text = ''d'', fold_level = 0, is_trigger = False,
        trigger_collapsed = False, visible = True\<rparr>]"

text \<open>
  A line indented by two levels after a blank line under a line at level 0: the document
  as loaded, after a pass, after folding the scope of line 0, and after unfolding it
  again.
\<close>

definition raised_doc :: document where
  "raised_doc = map new_line [''a'', [], ''        c'']"

definition raised_doc_processed :: document where
  "raised_doc_processed =
     [\<lparr>line_text = ''a'', fold_level = 0, is_trigger = True,
        trigger_collapsed = False, visible = True\<rparr>,
      \<lparr>line_text = [], fold_level = 2, is_trigger = False,
        trigger_collapsed = False, visible = True\<rparr>,
      \<lparr>line_text = ''        c'', fold_level = 1, is_trigger = False,
        trigger_collapsed = False, visible = True\<rparr>]"

definition raised_doc_folded :: document where
  "raised_doc_folded =
     [\<lparr>line_text = ''a'', fold_level = 0, is_trigger = True,
        trigger_collapsed = True, visible = True\<rparr>,
      \<lparr>line_text = [], fold_level = 2, is_trigger = False,
        trigger_collapsed = False, visible = False\<rparr>,
      \<lparr>line_text = ''        c'', fold_level = 1, is_trigger = False,
        trigger_collapsed = False, visible = False\<rparr>]"

definition raised_doc_unfolded :: document where
  "raised_doc_unfolded =
     [\<lparr>line_text = ''a'', fold_level = 0, is_trigger = True,
        trigger_collapsed = False, visible = True\<rparr>,
      \<lparr>line_text = [], fold_level = 2, is_trigger = False,
        trigger_collapsed = False, visible = True\<rparr>,
      \<lparr>line_text = ''        c'', fold_level = 1, is_trigger = False,
        trigger_collapsed = False, visible = False\<rparr>]"

section \<open>Well-nested scopes\<close>

text \<open>
  Folding and unfolding write the visibility and the collapsed flag of lines only: the
  documents they produce have the texts, fold levels and trigger flags of the document
  they started from.
\<close>

definition same_structure :: "document \<Rightarrow> document \<Rightarrow> bool" where
  "same_structure x y =
     (length x = length y
      \<and> (\<forall>i<length y. line_text (x ! i) = line_text (y ! i)
             \<and> fold_level (x ! i) = fold_level (y ! i)
             \<and> is_trigger (x ! i) = is_trigger (y ! i)))"

text \<open>
  The lines of a scope, from the line after the trigger \<open>t\<close> to the last line
  \<open>b\<close> of its range, are well nested when none of them is below the level of the
  first of them (the level of the scope), a line is a fold trigger exactly when the next
  line of the scope is deeper than it, no line is deeper than the line before it by more
  than one level, and every trigger among them is a non-blank line that is not collapsed.
\<close>

definition well_nested :: "document \<Rightarrow> block \<Rightarrow> int \<Rightarrow> bool" where
  "well_nested d t b =
     (\<forall>i<length d. t < int i \<and> int i \<le> b \<longrightarrow>
          get_fold_lvl d (t + 1) \<le> fold_level (d ! i)
        \<and> (is_trigger (d ! i) \<longleftrightarrow>
             int i < b \<and> fold_level (d ! i) < get_fold_lvl d (int i + 1))
        \<and> (int i < b \<longrightarrow> get_fold_lvl d (int i + 1) \<le> fold_level (d ! i) + 1)
        \<and> (is_trigger (d ! i) \<longrightarrow>
              strip (line_text (d ! i)) \<noteq> [] \<and> \<not> trigger_collapsed (d ! i)))"

section \<open>Reading and writing blocks\<close>

lemma length_setters [simp]:
  "length (set_fold_lvl d b v) = length d"
  "length (set_fold_trigger d b t) = length d"
  "length (set_fold_trigger_state d b t) = length d"
  "length (setVisible d b t) = length d"
  by (simp_all add: set_fold_lvl_def set_fold_trigger_def set_fold_trigger_state_def setVisible_def)

lemma isValid_setters [simp]:
  "isValid (set_fold_lvl d b v) c = isValid d c"
  "isValid (set_fold_trigger d b t) c = isValid d c"
  "isValid (set_fold_trigger_state d b t) c = isValid d c"
  "isValid (setVisible d b t) c = isValid d c"
  by (simp_all add: isValid_def)

lemma nth_set_fold_lvl:
  "i < length d \<Longrightarrow> set_fold_lvl d b v ! i = (if int i = b then (d ! i)\<lparr>fold_level := v\<rparr> else d ! i)"
  by (auto simp: set_fold_lvl_def isValid_def nth_list_update)

lemma nth_set_fold_trigger:
  "i < length d \<Longrightarrow> set_fold_trigger d b v ! i = (if int i = b then (d ! i)\<lparr>is_trigger := v\<rparr> else d ! i)"
  by (auto simp: set_fold_trigger_def isValid_def nth_list_update)

lemma nth_set_fold_trigger_state:
  "i < length d \<Longrightarrow> set_fold_trigger_state d b v ! i = (if int i = b then (d ! i)\<lparr>trigger_collapsed := v\<rparr> else d ! i)"
  by (auto simp: set_fold_trigger_state_def isValid_def nth_list_update)

lemma nth_setVisible:
  "i < length d \<Longrightarrow> setVisible d b v ! i = (if int i = b then (d ! i)\<lparr>visible := v\<rparr> else d ! i)"
  by (auto simp: setVisible_def isValid_def nth_list_update)

lemmas nth_setters = nth_set_fold_lvl nth_set_fold_trigger nth_set_fold_trigger_state nth_setVisible

lemma block_text_setters [simp]:
  "block_text (set_fold_lvl d b v) c = block_text d c"
  "block_text (set_fold_trigger d b t) c = block_text d c"
  "block_text (set_fold_trigger_state d b t) c = block_text d c"
  "block_text (setVisible d b t) c = block_text d c"
  by (auto simp: block_text_def nth_setters isValid_def)

lemma block_previous_setters [simp]:
  "block_previous (set_fold_lvl d b v) c = block_previous d c"
  "block_previous (set_fold_trigger d b t) c = block_previous d c"
  "block_previous (set_fold_trigger_state d b t) c = block_previous d c"
  "block_previous (setVisible d b t) c = block_previous d c"
  by (simp_all add: block_previous_def)

lemma block_next_setters [simp]:
  "block_next (set_fold_lvl d b v) c = block_next d c"
  "block_next (set_fold_trigger d b t) c = block_next d c"
  "block_next (set_fold_trigger_state d b t) c = block_next d c"
  "block_next (setVisible d b t) c = block_next d c"
  by (simp_all add: block_next_def)

lemma find_prev_non_blank_block_cong:
  "length d1 = length d \<Longrightarrow> (\<And>c. block_text d1 c = block_text d c) \<Longrightarrow>
   find_prev_non_blank_block d1 b = find_prev_non_blank_block d b"
proof (induction d b rule: find_prev_non_blank_block.induct)
  case (1 d b)
  have v: "isValid d1 x = isValid d x" for x using "1.prems"(1) by (simp add: isValid_def)
  have p: "block_previous d1 x = block_previous d x" for x
    using "1.prems"(1) by (simp add: block_previous_def v)
  show ?case
  proof (cases "isValid d b \<and> strip (block_text d b) = []")
    case True
    from "1.IH" [OF True "1.prems"(1) "1.prems"(2)] True show ?thesis
      by (simp add: find_prev_non_blank_block.simps [of d1 b]
          find_prev_non_blank_block.simps [of d b] v p "1.prems"(2))
  next
    case False
    then show ?thesis
      by (auto simp: find_prev_non_blank_block.simps [of d1 b]
          find_prev_non_blank_block.simps [of d b] v "1.prems"(2))
  qed
qed

lemma find_prev_non_blank_block_props:
  "- 1 \<le> b \<Longrightarrow> b < int (length d) \<Longrightarrow>
   - 1 \<le> find_prev_non_blank_block d b \<and> find_prev_non_blank_block d b \<le> b
   \<and> (find_prev_non_blank_block d b = - 1
        \<or> strip (block_text d (find_prev_non_blank_block d b)) \<noteq> [])
   \<and> (\<forall>j. find_prev_non_blank_block d b < j \<and> j \<le> b \<longrightarrow> strip (block_text d j) = [])"
proof (induction d b rule: find_prev_non_blank_block.induct)
  case (1 d b)
  show ?case
  proof (cases "isValid d b \<and> strip (block_text d b) = []")
    case True
    have pb: "block_previous d b = b - 1"
      using True by (auto simp: block_previous_def isValid_def)
    have eq: "find_prev_non_blank_block d b = find_prev_non_blank_block d (b - 1)"
      using True pb by (simp add: find_prev_non_blank_block.simps [of d b])
    have "- 1 \<le> b - 1" "b - 1 < int (length d)" using True by (auto simp: isValid_def)
    from "1.IH" [OF True, unfolded pb, OF this]
    have ih: "- 1 \<le> find_prev_non_blank_block d (b - 1)"
      "find_prev_non_blank_block d (b - 1) \<le> b - 1"
      "find_prev_non_blank_block d (b - 1) = - 1
        \<or> strip (block_text d (find_prev_non_blank_block d (b - 1))) \<noteq> []"
      "\<forall>j. find_prev_non_blank_block d (b - 1) < j \<and> j \<le> b - 1 \<longrightarrow> strip (block_text d j) = []"
      by blast+
    have "\<forall>j. find_prev_non_blank_block d (b - 1) < j \<and> j \<le> b \<longrightarrow> strip (block_text d j) = []"
    proof (intro allI impI)
      fix j assume j: "find_prev_non_blank_block d (b - 1) < j \<and> j \<le> b"
      show "strip (block_text d j) = []"
      proof (cases "j = b")
        case True with \<open>isValid d b \<and> strip (block_text d b) = []\<close> show ?thesis by simp
      next
        case False with j ih(4) show ?thesis by auto
      qed
    qed
    with ih show ?thesis unfolding eq by auto
  next
    case False
    then have eq: "find_prev_non_blank_block d b = b"
      by (auto simp: find_prev_non_blank_block.simps [of d b])
    have "b = - 1 \<or> strip (block_text d b) \<noteq> []"
      using False "1.prems" by (auto simp: isValid_def)
    with "1.prems" show ?thesis unfolding eq by auto
  qed
qed

text \<open>The walk over the blank blocks, block by block.\<close>

lemma apply_on_previous_blank_lines_effect:
  "- 1 \<le> b \<Longrightarrow> b < int (length d) \<Longrightarrow> apply_on_previous_blank_lines d fl b = (d', e) \<Longrightarrow>
     length d' = length d
     \<and> e = find_prev_non_blank_block d b
     \<and> (\<forall>i<length d. d' ! i =
           (if e < int i \<and> int i \<le> b then (d ! i)\<lparr>fold_level := fl\<rparr> else d ! i))"
proof (induction d fl b arbitrary: d' e rule: apply_on_previous_blank_lines.induct)
  case (1 d fl b)
  show ?case
  proof (cases "isValid d b \<and> strip (block_text d b) = []")
    case False
    with "1.prems" have "d' = d" "e = b"
      by (auto simp: apply_on_previous_blank_lines.simps [of d fl b])
    with False show ?thesis
      by (auto simp: find_prev_non_blank_block.simps [of d b])
  next
    case True
    let ?d1 = "set_fold_lvl d b fl"
    have pb: "block_previous d b = b - 1"
      using True by (auto simp: block_previous_def isValid_def)
    from True "1.prems"
    have r: "apply_on_previous_blank_lines ?d1 fl (b - 1) = (d', e)"
      by (simp add: apply_on_previous_blank_lines.simps [of d fl b] pb)
    have b1: "- 1 \<le> b - 1" "b - 1 < int (length ?d1)" using True by (auto simp: isValid_def)
    from "1.IH" [OF True, unfolded pb, OF b1 r]
    have ih: "length d' = length d"
      "e = find_prev_non_blank_block ?d1 (b - 1)"
      "\<forall>i<length d. d' ! i =
           (if e < int i \<and> int i \<le> b - 1 then (?d1 ! i)\<lparr>fold_level := fl\<rparr> else ?d1 ! i)"
      by simp_all
    have e1: "e = find_prev_non_blank_block d (b - 1)"
      using ih(2) by (simp add: find_prev_non_blank_block_cong [of ?d1 d])
    have e: "e = find_prev_non_blank_block d b"
      using e1 True pb by (simp add: find_prev_non_blank_block.simps [of d b])
    have elt: "e < b"
      using find_prev_non_blank_block_props [of "b - 1" d] b1 e1 by simp
    have "d' ! i = (if e < int i \<and> int i \<le> b then (d ! i)\<lparr>fold_level := fl\<rparr> else d ! i)"
      if i: "i < length d" for i
    proof (cases "int i = b")
      case True
      then show ?thesis using ih(3) i elt by (simp add: nth_set_fold_lvl)
    next
      case False
      then show ?thesis using ih(3) i elt by (auto simp: nth_set_fold_lvl)
    qed
    with ih(1) e show ?thesis by simp
  qed
qed

section \<open>What process\_block does to each line\<close>

lemma process_block_decompose:
  assumes pb: "process_block det limit d cur prev txt = Inr d'"
    and cur: "isValid d cur"
  shows "\<exists>fl d3.
      (if strip txt = [] then fl = get_fold_lvl d prev
       else \<exists>raw. det d prev cur = Inr raw \<and> fl = (if raw > limit then limit else raw))
    \<and> length d3 = length d
    \<and> (\<forall>i<length d.
         line_text (d3 ! i) = line_text (d ! i) \<and> visible (d3 ! i) = visible (d ! i)
       \<and> trigger_collapsed (d3 ! i) = trigger_collapsed (d ! i)
       \<and> fold_level (d3 ! i) =
           (if int i = cur
            then (if fl > get_fold_lvl d prev + 1 then get_fold_lvl d prev + 1 else fl)
            else if fl > get_fold_lvl d prev
                    \<and> find_prev_non_blank_block d (block_previous d cur) < int i \<and> int i < cur
            then fl else fold_level (d ! i))
       \<and> is_trigger (d3 ! i) =
           (if int i = prev \<and> strip txt \<noteq> [] then fl > get_fold_lvl d prev
            else if int i = find_prev_non_blank_block d (block_previous d cur)
                    \<and> fl > get_fold_lvl d prev then True
            else is_trigger (d ! i)))
    \<and> d' = (if isValid d3 (cur - 1) \<and> strip (block_text d3 (cur - 1)) = []
                 \<and> is_fold_trigger d3 (cur - 1)
              then set_fold_trigger_state
                     (set_fold_trigger
                        (set_fold_trigger_state d3 cur (get_fold_trigger_state d3 (cur - 1)))
                        (cur - 1) False)
                     (cur - 1) False
              else d3)"
proof -
  define pl where "pl = get_fold_lvl d prev"
  define e where "e = find_prev_non_blank_block d (block_previous d cur)"
  obtain fl where fl: "(if strip txt = [] then Inr pl
            else (case det d prev cur of Inl e \<Rightarrow> Inl e
                  | Inr lvl \<Rightarrow> Inr (if lvl > limit then limit else lvl))) = Inr fl"
    using pb unfolding process_block_def Let_def pl_def by (auto split: sum.splits)
  have flc: "if strip txt = [] then fl = pl
               else \<exists>raw. det d prev cur = Inr raw \<and> fl = (if raw > limit then limit else raw)"
    using fl by (auto split: if_splits sum.splits)
  define fl2 where "fl2 = (if \<bar>fl - pl\<bar> > 1 \<and> fl > pl then pl + 1 else fl)"
  have fl2: "fl2 = (if fl > pl + 1 then pl + 1 else fl)" unfolding fl2_def by auto
  have fl2gt: "(fl2 > pl) = (fl > pl)" unfolding fl2 by auto
  obtain dw e' where w: "apply_on_previous_blank_lines d fl (block_previous d cur) = (dw, e')"
    by fastforce
  have bp: "- 1 \<le> block_previous d cur" "block_previous d cur < int (length d)"
    "block_previous d cur = cur - 1"
    using cur by (auto simp: block_previous_def isValid_def)
  from apply_on_previous_blank_lines_effect [OF bp(1,2) w]
  have dw: "length dw = length d" "e' = e"
    "\<And>i. i < length d \<Longrightarrow> dw ! i =
           (if e < int i \<and> int i < cur then (d ! i)\<lparr>fold_level := fl\<rparr> else d ! i)"
    unfolding e_def bp(3) by auto
  have ep: "- 1 \<le> e" "e < cur" "e = - 1 \<or> strip (block_text d e) \<noteq> []"
    using find_prev_non_blank_block_props [OF bp(1,2)] unfolding e_def bp(3) by auto
  define d1 where "d1 = (if fl > pl then set_fold_trigger dw e True else d)"
  define d2 where "d2 = (if strip txt \<noteq> [] then set_fold_trigger d1 prev (fl2 > pl) else d1)"
  define d3 where "d3 = set_fold_lvl d2 cur fl2"
  have len: "length d1 = length d" "length d2 = length d" "length d3 = length d"
    unfolding d3_def d2_def d1_def using dw(1) by auto
  have d'eq: "d' = (if isValid d3 (block_previous d3 cur) \<and> strip (block_text d3 (block_previous d3 cur)) = []
                     \<and> is_fold_trigger d3 (block_previous d3 cur)
                  then set_fold_trigger_state
                         (set_fold_trigger
                            (set_fold_trigger_state d3 cur
                               (get_fold_trigger_state d3 (block_previous d3 cur)))
                            (block_previous d3 cur) False)
                         (block_previous d3 cur) False
                  else d3)"
    using pb fl unfolding process_block_def Let_def pl_def [symmetric] d3_def d2_def d1_def fl2_def
    by (cases "fl > pl"; cases "strip txt = []"; simp add: w dw(2) cong: if_cong)
  have bp3: "block_previous d3 cur = cur - 1"
    using cur len(3) by (auto simp: block_previous_def isValid_def)
  have d1n: "d1 ! i = (if fl > pl then
        (if e < int i \<and> int i < cur then (d ! i)\<lparr>fold_level := fl\<rparr>
         else if int i = e then (d ! i)\<lparr>is_trigger := True\<rparr> else d ! i) else d ! i)"
    if "i < length d" for i
    using that dw(1) dw(3) [OF that] unfolding d1_def by (auto simp: nth_set_fold_trigger)
  have d3n: "line_text (d3 ! i) = line_text (d ! i) \<and> visible (d3 ! i) = visible (d ! i)
      \<and> trigger_collapsed (d3 ! i) = trigger_collapsed (d ! i)
      \<and> fold_level (d3 ! i) = (if int i = cur then fl2
            else if fl > pl \<and> e < int i \<and> int i < cur then fl else fold_level (d ! i))
      \<and> is_trigger (d3 ! i) = (if int i = prev \<and> strip txt \<noteq> [] then fl > pl
            else if int i = e \<and> fl > pl then True else is_trigger (d ! i))"
    if "i < length d" for i
  proof -
    have a: "d2 ! i = (if int i = prev \<and> strip txt \<noteq> [] then (d1 ! i)\<lparr>is_trigger := fl > pl\<rparr> else d1 ! i)"
      using that len(1) fl2gt unfolding d2_def by (simp add: nth_set_fold_trigger)
    have b: "d3 ! i = (if int i = cur then (d2 ! i)\<lparr>fold_level := fl2\<rparr> else d2 ! i)"
      using that len(2) unfolding d3_def by (simp add: nth_set_fold_lvl)
    show ?thesis unfolding b a d1n [OF that] using ep(2) by simp
  qed
  show ?thesis
    apply (rule exI [of _ fl], rule exI [of _ d3])
    unfolding pl_def [symmetric] e_def [symmetric]
    using flc len(3) d3n d'eq [unfolded bp3] unfolding fl2 by blast
qed

lemma process_block_effect:
  assumes pb: "process_block det limit d cur prev txt = Inr d'"
    and cur: "isValid d cur"
  shows "\<exists>fl. (if strip txt = [] then fl = get_fold_lvl d prev
               else \<exists>raw. det d prev cur = Inr raw \<and> fl = (if raw > limit then limit else raw))
    \<and> length d' = length d
    \<and> (\<forall>i<length d.
         line_text (d' ! i) = line_text (d ! i)
       \<and> visible (d' ! i) = visible (d ! i)
       \<and> fold_level (d' ! i) =
           (if int i = cur
            then (if fl > get_fold_lvl d prev + 1 then get_fold_lvl d prev + 1 else fl)
            else if fl > get_fold_lvl d prev
                    \<and> find_prev_non_blank_block d (block_previous d cur) < int i \<and> int i < cur
            then fl else fold_level (d ! i))
       \<and> is_trigger (d' ! i) =
           (if int i = cur - 1 \<and> strip (line_text (d ! i)) = []
               \<and> (if int i = prev \<and> strip txt \<noteq> [] then fl > get_fold_lvl d prev
                   else is_trigger (d ! i))
            then False
            else if int i = prev \<and> strip txt \<noteq> [] then fl > get_fold_lvl d prev
            else if int i = find_prev_non_blank_block d (block_previous d cur)
                    \<and> fl > get_fold_lvl d prev then True
            else is_trigger (d ! i)))"
proof -
  define pl where "pl = get_fold_lvl d prev"
  define e where "e = find_prev_non_blank_block d (block_previous d cur)"
  from process_block_decompose [OF pb cur]
  obtain fl d3 where
    flc: "if strip txt = [] then fl = pl
          else \<exists>raw. det d prev cur = Inr raw \<and> fl = (if raw > limit then limit else raw)"
    and len3: "length d3 = length d"
    and d3n: "\<And>i. i < length d \<Longrightarrow>
         line_text (d3 ! i) = line_text (d ! i) \<and> visible (d3 ! i) = visible (d ! i)
       \<and> trigger_collapsed (d3 ! i) = trigger_collapsed (d ! i)
       \<and> fold_level (d3 ! i) =
           (if int i = cur then (if fl > pl + 1 then pl + 1 else fl)
            else if fl > pl \<and> e < int i \<and> int i < cur then fl else fold_level (d ! i))
       \<and> is_trigger (d3 ! i) =
           (if int i = prev \<and> strip txt \<noteq> [] then fl > pl
            else if int i = e \<and> fl > pl then True else is_trigger (d ! i))"
    and d'eq: "d' = (if isValid d3 (cur - 1) \<and> strip (block_text d3 (cur - 1)) = []
                 \<and> is_fold_trigger d3 (cur - 1)
              then set_fold_trigger_state
                     (set_fold_trigger
                        (set_fold_trigger_state d3 cur (get_fold_trigger_state d3 (cur - 1)))
                        (cur - 1) False)
                     (cur - 1) False
              else d3)"
    unfolding pl_def e_def by blast
  have bp: "- 1 \<le> block_previous d cur" "block_previous d cur < int (length d)"
    using cur by (auto simp: block_previous_def isValid_def)
  have ep: "e = - 1 \<or> strip (block_text d e) \<noteq> []"
    using find_prev_non_blank_block_props [OF bp] unfolding e_def by auto
  have final: "line_text (d' ! i) = line_text (d ! i) \<and> visible (d' ! i) = visible (d ! i)
      \<and> fold_level (d' ! i) = fold_level (d3 ! i)
      \<and> is_trigger (d' ! i) = (if int i = cur - 1 \<and> strip (line_text (d ! i)) = [] \<and> is_trigger (d3 ! i)
                                then False else is_trigger (d3 ! i))"
    if "i < length d" for i
  proof -
    define c where "c = (isValid d3 (cur - 1) \<and> strip (block_text d3 (cur - 1)) = []
                     \<and> is_fold_trigger d3 (cur - 1))"
    have ci: "c = (strip (line_text (d ! i)) = [] \<and> is_trigger (d3 ! i))" if "int i = cur - 1"
    proof -
      have n: "nat (cur - 1) = i" using that by simp
      have v: "isValid d3 (cur - 1)"
        using \<open>i < length d\<close> len3 unfolding that [symmetric] by (simp add: isValid_def)
      have t: "line_text (d3 ! i) = line_text (d ! i)" using d3n [OF \<open>i < length d\<close>] by simp
      show ?thesis unfolding c_def block_text_def is_fold_trigger_def using v n t by simp
    qed
    show ?thesis
    proof (cases c)
      case True
      then have "d' = set_fold_trigger_state
                         (set_fold_trigger
                            (set_fold_trigger_state d3 cur
                               (get_fold_trigger_state d3 (cur - 1)))
                            (cur - 1) False)
                         (cur - 1) False"
        unfolding d'eq c_def by simp
      then show ?thesis
        using that len3 d3n [OF that] True ci
        by (simp add: nth_set_fold_trigger nth_set_fold_trigger_state)
    next
      case False
      then have "d' = d3" unfolding d'eq c_def by auto
      then show ?thesis using d3n [OF that] False ci by auto
    qed
  qed
  have len': "length d' = length d" unfolding d'eq using len3 by simp
  have enb: "strip (line_text (d ! i)) \<noteq> []" if "i < length d" "int i = e" for i
  proof -
    have "e \<noteq> - 1" using that(2) by linarith
    then have "strip (block_text d (int i)) \<noteq> []" using ep unfolding that(2) by simp
    then show ?thesis using that(1) by (simp add: block_text_def isValid_def)
  qed
  have main: "line_text (d' ! i) = line_text (d ! i)
       \<and> visible (d' ! i) = visible (d ! i)
       \<and> fold_level (d' ! i) =
           (if int i = cur
            then (if fl > pl + 1 then pl + 1 else fl)
            else if fl > pl \<and> e < int i \<and> int i < cur
            then fl else fold_level (d ! i))
       \<and> is_trigger (d' ! i) =
           (if int i = cur - 1 \<and> strip (line_text (d ! i)) = []
               \<and> (if int i = prev \<and> strip txt \<noteq> [] then fl > pl
                   else is_trigger (d ! i))
            then False
            else if int i = prev \<and> strip txt \<noteq> [] then fl > pl
            else if int i = e \<and> fl > pl then True
            else is_trigger (d ! i))" if "i < length d" for i
  proof (cases "int i = e")
    case True
    with enb [OF that] final [OF that] d3n [OF that] show ?thesis by simp
  next
    case False
    with final [OF that] d3n [OF that] show ?thesis by simp
  qed
  show ?thesis
    unfolding pl_def [symmetric] e_def [symmetric]
    using flc len' main by blast
qed

section \<open>A blank trigger line above the current line\<close>

text \<open>
  Claim C8, as the code has it. Let \<^verbatim>\<open>process_block\<close> run, the detector
  returning normally, on a line whose immediate predecessor is blank and marked as a
  trigger, and let the previous block passed in be neither that predecessor nor the
  current line (so it is when the caller passes the nearest preceding non-blank line, or
  none). Then the collapsed state of the predecessor is copied onto the current line and
  both flags are cleared on the predecessor. The trigger flag of the current line is not
  written: it stays what it was. The condition on the previous block is needed: passed the
  blank predecessor itself, the code rewrites that block's trigger flag before it tests
  it.
\<close>

theorem process_block_blank_trigger_transfer:
  assumes "process_block det limit d cur prev txt = Inr d'"
    and "isValid d cur" and "isValid d (cur - 1)"
    and "strip (block_text d (cur - 1)) = []"
    and "is_fold_trigger d (cur - 1)"
    and "prev \<noteq> cur - 1" and "prev \<noteq> cur"
  shows "get_fold_trigger_state d' cur = get_fold_trigger_state d (cur - 1)
       \<and> \<not> is_fold_trigger d' (cur - 1)
       \<and> \<not> get_fold_trigger_state d' (cur - 1)
       \<and> is_fold_trigger d' cur = is_fold_trigger d cur"
proof -
  define e where "e = find_prev_non_blank_block d (block_previous d cur)"
  from process_block_decompose [OF assms(1,2)]
  obtain fl d3 where
    len3: "length d3 = length d"
    and d3n: "\<And>i. i < length d \<Longrightarrow>
         line_text (d3 ! i) = line_text (d ! i)
       \<and> trigger_collapsed (d3 ! i) = trigger_collapsed (d ! i)
       \<and> is_trigger (d3 ! i) =
           (if int i = prev \<and> strip txt \<noteq> [] then fl > get_fold_lvl d prev
            else if int i = e \<and> fl > get_fold_lvl d prev then True else is_trigger (d ! i))"
    and d'eq: "d' = (if isValid d3 (cur - 1) \<and> strip (block_text d3 (cur - 1)) = []
                 \<and> is_fold_trigger d3 (cur - 1)
              then set_fold_trigger_state
                     (set_fold_trigger
                        (set_fold_trigger_state d3 cur (get_fold_trigger_state d3 (cur - 1)))
                        (cur - 1) False)
                     (cur - 1) False
              else d3)"
    unfolding e_def by blast
  have bp: "- 1 \<le> block_previous d cur" "block_previous d cur < int (length d)"
    using assms(2) by (auto simp: block_previous_def isValid_def)
  have ep: "e < cur" "e = - 1 \<or> strip (block_text d e) \<noteq> []"
    using find_prev_non_blank_block_props [OF bp] assms(2) unfolding e_def
    by (auto simp: block_previous_def isValid_def split: if_splits)
  have ne: "e \<noteq> cur - 1" using ep(2) assms(3,4) by (auto simp: isValid_def)
  define i where "i = nat (cur - 1)"
  define k where "k = nat cur"
  have i: "i < length d" "int i = cur - 1" and k: "k < length d" "int k = cur"
    using assms(2,3) unfolding i_def k_def by (auto simp: isValid_def)
  have v3: "isValid d3 (cur - 1)" "isValid d3 cur"
    using assms(2,3) len3 by (auto simp: isValid_def)
  have ti: "line_text (d3 ! i) = line_text (d ! i)" "trigger_collapsed (d3 ! i) = trigger_collapsed (d ! i)"
    "is_trigger (d3 ! i) = is_trigger (d ! i)"
    using d3n [OF i(1)] i(2) ne assms(6) by auto
  have tk: "is_trigger (d3 ! k) = is_trigger (d ! k)"
    using d3n [OF k(1)] k(2) ep(1) assms(7) by auto
  have c: "isValid d3 (cur - 1) \<and> strip (block_text d3 (cur - 1)) = [] \<and> is_fold_trigger d3 (cur - 1)"
    using v3(1) ti assms(3,4,5) unfolding block_text_def is_fold_trigger_def i_def by simp
  have d': "d' = set_fold_trigger_state
                     (set_fold_trigger
                        (set_fold_trigger_state d3 cur (get_fold_trigger_state d3 (cur - 1)))
                        (cur - 1) False)
                     (cur - 1) False"
    unfolding d'eq using c by simp
  have len': "length d' = length d" unfolding d' using len3 by simp
  have vd': "isValid d' (cur - 1)" "isValid d' cur" using v3 unfolding d' by simp_all
  have ni: "d' ! i = (d3 ! i)\<lparr>is_trigger := False, trigger_collapsed := False\<rparr>"
    unfolding d' using i len3 by (simp add: nth_set_fold_trigger nth_set_fold_trigger_state)
  have nk: "d' ! k = (d3 ! k)\<lparr>trigger_collapsed := trigger_collapsed (d3 ! i)\<rparr>"
    unfolding d' using k i len3 v3
    by (simp add: nth_set_fold_trigger nth_set_fold_trigger_state get_fold_trigger_state_def i_def)
  show ?thesis
    using vd' assms(2,3) ni nk ti tk
    unfolding get_fold_trigger_state_def is_fold_trigger_def i_def [symmetric] k_def [symmetric]
    by simp
qed

theorem process_block_blank_trigger_transfer_witness:
  "get_fold_trigger_state enter_doc_processed 1 = get_fold_trigger_state enter_doc 0
   \<and> \<not> is_fold_trigger enter_doc_processed 0
   \<and> \<not> get_fold_trigger_state enter_doc_processed 0
   \<and> is_fold_trigger enter_doc_processed 1 = is_fold_trigger enter_doc 1"
proof -
  have a: "process_block (IndentFoldDetector_detect_fold_level 4) sys_maxsize enter_doc 1 (- 1)
             ''def f():'' = Inr enter_doc_processed"
    by code_simp
  have b: "isValid enter_doc 1" "isValid enter_doc (1 - 1)"
    "strip (block_text enter_doc (1 - 1)) = []" "is_fold_trigger enter_doc (1 - 1)"
    by code_simp+
  have c: "(- 1 :: int) \<noteq> 1 - 1" "(- 1 :: int) \<noteq> 1" by simp_all
  from process_block_blank_trigger_transfer [OF a b c] show ?thesis by simp
qed

text \<open>
  The claim as the spec words it has the current line become a trigger. On the document
  left by pressing enter at the start of a collapsed trigger line, processing the moved
  line copies the collapsed state and clears the blank line, and the moved line is not a
  trigger afterwards.
\<close>

theorem process_block_blank_trigger_counterexample:
  "process_block (IndentFoldDetector_detect_fold_level 4) sys_maxsize enter_doc 1
       (find_prev_non_blank_block enter_doc (block_previous enter_doc 1))
       (block_text enter_doc 1) = Inr enter_doc_processed
   \<and> block_previous enter_doc 1 = 0
   \<and> strip (block_text enter_doc 0) = []
   \<and> is_fold_trigger enter_doc 0
   \<and> strip (block_text enter_doc 1) \<noteq> []
   \<and> \<not> is_fold_trigger enter_doc_processed 1"
  by code_simp

section \<open>The pass keeps its invariant\<close>

lemma find_prev_non_blank_block_Suc:
  "k < length d0 \<Longrightarrow>
   find_prev_non_blank_block d0 (int (Suc k) - 1) =
     (if strip (line_text (d0 ! k)) = [] then find_prev_non_blank_block d0 (int k - 1) else int k)"
proof -
  assume k: "k < length d0"
  have v: "isValid d0 (int k)" using k by (simp add: isValid_def)
  have t: "block_text d0 (int k) = line_text (d0 ! k)" using v by (simp add: block_text_def)
  have p: "block_previous d0 (int k) = int k - 1"
    using v by (auto simp: block_previous_def isValid_def)
  show ?thesis
    using v t p by (simp add: find_prev_non_blank_block.simps [of d0 "int k"])
qed

lemma pass_inv_0: "pass_inv d 0 d"
  by (simp add: pass_inv_def)

lemma pass_inv_step:
  assumes inv: "pass_inv d0 k d" and k: "k < length d0"
    and pb: "process_block det limit d (int k)
               (find_prev_non_blank_block d (block_previous d (int k)))
               (block_text d (int k)) = Inr d'"
  shows "pass_inv d0 (Suc k) d'"
proof -
  define P where "P q = find_prev_non_blank_block d0 (int q - 1)" for q
  define e where "e = P k"
  define pl where "pl = get_fold_lvl d e"
  define bl where "bl i = (strip (line_text (d0 ! i)) = [])" for i
  from inv have len: "length d = length d0"
    and txs: "\<And>i. i < length d0 \<Longrightarrow> line_text (d ! i) = line_text (d0 ! i)"
    and A: "\<And>q. q < k \<Longrightarrow> \<not> bl q \<Longrightarrow>
            fold_level (d ! q) \<le> get_fold_lvl d (P q) + 1
          \<and> (0 \<le> P q \<longrightarrow> is_trigger (d ! nat (P q)) = (fold_level (d ! q) > get_fold_lvl d (P q)))
          \<and> (\<forall>i. P q < int i \<and> i < q \<longrightarrow>
                (fold_level (d ! q) \<le> get_fold_lvl d (P q)
                   \<longrightarrow> fold_level (d ! i) = get_fold_lvl d (P q))
              \<and> (fold_level (d ! q) > get_fold_lvl d (P q)
                   \<longrightarrow> fold_level (d ! i) \<ge> fold_level (d ! q))
              \<and> fold_level (d ! i) = fold_level (d ! (q - 1)))"
    and B: "\<And>i. e < int i \<Longrightarrow> i < k \<Longrightarrow> fold_level (d ! i) = pl"
    and C: "\<And>i. Suc i < k \<Longrightarrow> bl i \<Longrightarrow> \<not> is_trigger (d ! i)"
    and D: "\<And>i. i < length d0 \<Longrightarrow> e \<le> int i \<Longrightarrow> is_trigger (d ! i) \<Longrightarrow> is_trigger (d0 ! i)"
    unfolding pass_inv_def P_def e_def pl_def bl_def by blast+
  have cur: "isValid d (int k)" using k len by (simp add: isValid_def)
  have bpk: "block_previous d (int k) = int k - 1"
    using cur by (auto simp: block_previous_def isValid_def)
  have btx: "block_text d c = block_text d0 c" for c
    using len txs by (auto simp: block_text_def isValid_def)
  have prev: "find_prev_non_blank_block d (block_previous d (int k)) = e"
    unfolding bpk e_def P_def using len btx by (rule find_prev_non_blank_block_cong)
  have txk: "block_text d (int k) = line_text (d0 ! k)"
    using cur txs k by (simp add: block_text_def)
  have bnd: "- 1 \<le> int k - 1" "int k - 1 < int (length d0)" using k by auto
  have ep: "- 1 \<le> e" "e < int k" "e = - 1 \<or> strip (block_text d0 e) \<noteq> []"
    "\<And>j. e < j \<Longrightarrow> j < int k \<Longrightarrow> strip (block_text d0 j) = []"
    using find_prev_non_blank_block_props [OF bnd] unfolding e_def P_def by auto
  have enb: "\<not> bl i" if "int i = e" for i
  proof -
    have "e \<noteq> - 1" using that by linarith
    then have "strip (block_text d0 (int i)) \<noteq> []" using ep(3) unfolding that by simp
    moreover have "i < length d0" using that ep(2) k by linarith
    ultimately show ?thesis by (simp add: bl_def block_text_def isValid_def)
  qed
  have gap: "bl i" if "e < int i" "i < k" for i
  proof -
    have "strip (block_text d0 (int i)) = []" using ep(4) [of "int i"] that by simp
    moreover have "i < length d0" using that k by simp
    ultimately show ?thesis by (simp add: bl_def block_text_def isValid_def)
  qed
  have qle: "int q \<le> e" if "q < k" "\<not> bl q" for q
    using gap [of q] that by force
  have Pq: "- 1 \<le> P q" "P q < int q" if "q < length d0" for q
  proof -
    have "- 1 \<le> int q - 1" "int q - 1 < int (length d0)" using that by auto
    from find_prev_non_blank_block_props [OF this] show "- 1 \<le> P q" "P q < int q"
      unfolding P_def by auto
  qed
  have PS: "P (Suc k) = (if bl k then e else int k)"
    unfolding P_def e_def bl_def using find_prev_non_blank_block_Suc [OF k] by simp
  from process_block_effect [OF pb cur, unfolded prev txk]
  obtain fl where
    flc: "if bl k then fl = pl
          else \<exists>raw. det d e (int k) = Inr raw \<and> fl = (if raw > limit then limit else raw)"
    and len': "length d' = length d"
    and eff: "\<And>i. i < length d \<Longrightarrow>
         line_text (d' ! i) = line_text (d ! i)
       \<and> fold_level (d' ! i) =
           (if int i = int k then (if fl > pl + 1 then pl + 1 else fl)
            else if fl > pl \<and> e < int i \<and> int i < int k then fl else fold_level (d ! i))
       \<and> is_trigger (d' ! i) =
           (if int i = int k - 1 \<and> strip (line_text (d ! i)) = []
               \<and> (if int i = e \<and> \<not> bl k then fl > pl else is_trigger (d ! i))
            then False
            else if int i = e \<and> \<not> bl k then fl > pl
            else if int i = e \<and> fl > pl then True
            else is_trigger (d ! i))"
    unfolding pl_def [symmetric] bl_def by blast
  have flb: "fl = pl" if "bl k" using flc that by simp
  have L: "fold_level (d' ! i) =
           (if i = k then (if fl > pl + 1 then pl + 1 else fl)
            else if fl > pl \<and> e < int i \<and> i < k then fl else fold_level (d ! i))"
    if "i < length d0" for i
    using eff [of i] that len by simp
  have T: "is_trigger (d' ! i) =
           (if int i = e then (if bl k then is_trigger (d ! i) else fl > pl)
            else if Suc i = k \<and> bl i then False else is_trigger (d ! i))"
    if i: "i < length d0" for i
  proof (cases "int i = e")
    case True
    have nb: "strip (line_text (d ! i)) \<noteq> []" using enb [OF True] txs [OF i] by (simp add: bl_def)
    show ?thesis using eff [of i] i len True nb flb by auto
  next
    case False
    have "(int i = int k - 1) = (Suc i = k)" by auto
    then show ?thesis using eff [of i] i len False txs [OF i] by (auto simp: bl_def)
  qed
  have G: "get_fold_lvl d' x = get_fold_lvl d x" if "x \<le> e" for x
  proof (cases "isValid d x")
    case True
    then have i: "nat x < length d0" "int (nat x) = x" using len by (auto simp: isValid_def)
    have "fold_level (d' ! nat x) = fold_level (d ! nat x)"
      using L [OF i(1)] that ep(2) i(2) by auto
    then show ?thesis using True len' by (simp add: get_fold_lvl_def isValid_def)
  next
    case False
    then show ?thesis using len' by (auto simp: get_fold_lvl_def isValid_def)
  qed
  have c1: "length d' = length d0" using len len' by simp
  have c2: "\<forall>i<length d0. line_text (d' ! i) = line_text (d0 ! i)"
    using eff txs len by simp
  have A_old: "fold_level (d' ! q) \<le> get_fold_lvl d' (P q) + 1
          \<and> (0 \<le> P q \<longrightarrow> is_trigger (d' ! nat (P q)) = (fold_level (d' ! q) > get_fold_lvl d' (P q)))
          \<and> (\<forall>i. P q < int i \<and> i < q \<longrightarrow>
                (fold_level (d' ! q) \<le> get_fold_lvl d' (P q)
                   \<longrightarrow> fold_level (d' ! i) = get_fold_lvl d' (P q))
              \<and> (fold_level (d' ! q) > get_fold_lvl d' (P q)
                   \<longrightarrow> fold_level (d' ! i) \<ge> fold_level (d' ! q))
              \<and> fold_level (d' ! i) = fold_level (d' ! (q - 1)))"
    if q: "q < k" "\<not> bl q" for q
  proof -
    have qe: "int q \<le> e" using qle [OF q] .
    have ql: "q < length d0" using q k by simp
    have Pl: "P q < e" using Pq [OF ql] qe by simp
    have lq: "fold_level (d' ! q) = fold_level (d ! q)" using L [OF ql] qe q by auto
    have gq: "get_fold_lvl d' (P q) = get_fold_lvl d (P q)" using G Pl by simp
    have tq: "is_trigger (d' ! nat (P q)) = is_trigger (d ! nat (P q))" if "0 \<le> P q"
    proof -
      have n: "nat (P q) < length d0" "int (nat (P q)) = P q" using that Pl ep(2) k by auto
      have "Suc (nat (P q)) \<noteq> k" using n(2) Pl ep(2) by linarith
      then show ?thesis using T [OF n(1)] n(2) Pl by simp
    qed
    have li: "fold_level (d' ! i) = fold_level (d ! i)" if "i < q" for i
    proof -
      have "i < length d0" "int i < e" "i \<noteq> k" using that ql qe q by auto
      then show ?thesis using L [of i] by simp
    qed
    from A [OF q] have o1: "fold_level (d ! q) \<le> get_fold_lvl d (P q) + 1"
      and o2: "0 \<le> P q \<Longrightarrow>
               is_trigger (d ! nat (P q)) = (fold_level (d ! q) > get_fold_lvl d (P q))"
      and o3: "\<And>i. P q < int i \<Longrightarrow> i < q \<Longrightarrow>
                (fold_level (d ! q) \<le> get_fold_lvl d (P q)
                   \<longrightarrow> fold_level (d ! i) = get_fold_lvl d (P q))
              \<and> (fold_level (d ! q) > get_fold_lvl d (P q)
                   \<longrightarrow> fold_level (d ! i) \<ge> fold_level (d ! q))
              \<and> fold_level (d ! i) = fold_level (d ! (q - 1))"
      by blast+
    have n1: "fold_level (d' ! q) \<le> get_fold_lvl d' (P q) + 1"
      unfolding lq gq by (rule o1)
    have n2: "is_trigger (d' ! nat (P q)) = (fold_level (d' ! q) > get_fold_lvl d' (P q))"
      if "0 \<le> P q"
      unfolding lq gq tq [OF that] by (rule o2 [OF that])
    have n3: "(fold_level (d' ! q) \<le> get_fold_lvl d' (P q)
                   \<longrightarrow> fold_level (d' ! i) = get_fold_lvl d' (P q))
              \<and> (fold_level (d' ! q) > get_fold_lvl d' (P q)
                   \<longrightarrow> fold_level (d' ! i) \<ge> fold_level (d' ! q))
              \<and> fold_level (d' ! i) = fold_level (d' ! (q - 1))"
      if "P q < int i" "i < q" for i
    proof -
      have "q - 1 < q" using that(2) by simp
      from li [OF that(2)] li [OF this] show ?thesis
        unfolding lq gq using o3 [OF that] by presburger
    qed
    show ?thesis using n1 n2 n3 by blast
  qed
  have A_new: "fold_level (d' ! k) \<le> get_fold_lvl d' (P k) + 1
          \<and> (0 \<le> P k \<longrightarrow> is_trigger (d' ! nat (P k)) = (fold_level (d' ! k) > get_fold_lvl d' (P k)))
          \<and> (\<forall>i. P k < int i \<and> i < k \<longrightarrow>
                (fold_level (d' ! k) \<le> get_fold_lvl d' (P k)
                   \<longrightarrow> fold_level (d' ! i) = get_fold_lvl d' (P k))
              \<and> (fold_level (d' ! k) > get_fold_lvl d' (P k)
                   \<longrightarrow> fold_level (d' ! i) \<ge> fold_level (d' ! k))
              \<and> fold_level (d' ! i) = fold_level (d' ! (k - 1)))"
    if nb: "\<not> bl k"
  proof -
    have Pk: "P k = e" unfolding e_def by simp
    have g: "get_fold_lvl d' e = pl" using G [of e] unfolding pl_def by simp
    have lk: "fold_level (d' ! k) = (if fl > pl + 1 then pl + 1 else fl)" using L [OF k] by simp
    have a1: "fold_level (d' ! k) \<le> get_fold_lvl d' (P k) + 1" unfolding Pk g lk by simp
    have a2: "is_trigger (d' ! nat (P k)) = (fold_level (d' ! k) > get_fold_lvl d' (P k))"
      if "0 \<le> P k"
    proof -
      have n: "nat e < length d0" "int (nat e) = e" using that ep(2) k unfolding Pk by auto
      show ?thesis unfolding Pk g lk using T [OF n(1)] n(2) nb by auto
    qed
    have lg: "fold_level (d' ! i) = (if fl > pl then fl else pl)" if "e < int i" "i < k" for i
    proof -
      have i: "i < length d0" "i \<noteq> k" using that k by auto
      show ?thesis using L [OF i(1)] i(2) that B [OF that] by simp
    qed
    have a3: "(fold_level (d' ! k) \<le> get_fold_lvl d' (P k)
                   \<longrightarrow> fold_level (d' ! i) = get_fold_lvl d' (P k))
              \<and> (fold_level (d' ! k) > get_fold_lvl d' (P k)
                   \<longrightarrow> fold_level (d' ! i) \<ge> fold_level (d' ! k))
              \<and> fold_level (d' ! i) = fold_level (d' ! (k - 1))"
      if "P k < int i" "i < k" for i
    proof -
      have i: "e < int i" using that unfolding Pk by simp
      have k1: "e < int (k - 1)" "k - 1 < k" using i that(2) by auto
      show ?thesis unfolding Pk g lk using lg [OF i that(2)] lg [OF k1] by auto
    qed
    show ?thesis using a1 a2 a3 by blast
  qed
  have c3: "\<forall>q<Suc k. strip (line_text (d0 ! q)) \<noteq> [] \<longrightarrow>
            fold_level (d' ! q) \<le> get_fold_lvl d' (find_prev_non_blank_block d0 (int q - 1)) + 1
          \<and> (0 \<le> find_prev_non_blank_block d0 (int q - 1) \<longrightarrow>
               is_trigger (d' ! nat (find_prev_non_blank_block d0 (int q - 1)))
                 = (fold_level (d' ! q) > get_fold_lvl d' (find_prev_non_blank_block d0 (int q - 1))))
          \<and> (\<forall>i. find_prev_non_blank_block d0 (int q - 1) < int i \<and> i < q \<longrightarrow>
                (fold_level (d' ! q) \<le> get_fold_lvl d' (find_prev_non_blank_block d0 (int q - 1))
                   \<longrightarrow> fold_level (d' ! i) = get_fold_lvl d' (find_prev_non_blank_block d0 (int q - 1)))
              \<and> (fold_level (d' ! q) > get_fold_lvl d' (find_prev_non_blank_block d0 (int q - 1))
                   \<longrightarrow> fold_level (d' ! i) \<ge> fold_level (d' ! q))
              \<and> fold_level (d' ! i) = fold_level (d' ! (q - 1)))"
  proof (intro allI impI)
    fix q assume q: "q < Suc k" and nb: "strip (line_text (d0 ! q)) \<noteq> []"
    show "fold_level (d' ! q) \<le> get_fold_lvl d' (find_prev_non_blank_block d0 (int q - 1)) + 1
          \<and> (0 \<le> find_prev_non_blank_block d0 (int q - 1) \<longrightarrow>
               is_trigger (d' ! nat (find_prev_non_blank_block d0 (int q - 1)))
                 = (fold_level (d' ! q) > get_fold_lvl d' (find_prev_non_blank_block d0 (int q - 1))))
          \<and> (\<forall>i. find_prev_non_blank_block d0 (int q - 1) < int i \<and> i < q \<longrightarrow>
                (fold_level (d' ! q) \<le> get_fold_lvl d' (find_prev_non_blank_block d0 (int q - 1))
                   \<longrightarrow> fold_level (d' ! i) = get_fold_lvl d' (find_prev_non_blank_block d0 (int q - 1)))
              \<and> (fold_level (d' ! q) > get_fold_lvl d' (find_prev_non_blank_block d0 (int q - 1))
                   \<longrightarrow> fold_level (d' ! i) \<ge> fold_level (d' ! q))
              \<and> fold_level (d' ! i) = fold_level (d' ! (q - 1)))"
    proof (cases "q = k")
      case True
      have "\<not> bl k" using nb unfolding bl_def True .
      from A_new [OF this] show ?thesis unfolding True P_def .
    next
      case False
      with q have qk: "q < k" by simp
      have "\<not> bl q" using nb unfolding bl_def .
      from A_old [OF qk this] show ?thesis unfolding P_def .
    qed
  qed
  have c4: "\<forall>i. find_prev_non_blank_block d0 (int (Suc k) - 1) < int i \<and> i < Suc k \<longrightarrow>
            fold_level (d' ! i) = get_fold_lvl d' (find_prev_non_blank_block d0 (int (Suc k) - 1))"
  proof (intro allI impI)
    fix i assume h: "find_prev_non_blank_block d0 (int (Suc k) - 1) < int i \<and> i < Suc k"
    then have h1: "P (Suc k) < int i" "i < Suc k" unfolding P_def by auto
    have blk: "bl k" using h1 PS by (cases "bl k") auto
    then have Pe: "P (Suc k) = e" using PS by simp
    have i: "i < length d0" "e < int i" using h1 k Pe by auto
    have "fold_level (d' ! i) = pl"
    proof (cases "i = k")
      case True then show ?thesis using L [OF k] flb [OF blk] by simp
    next
      case False
      then have "i < k" using h1 by simp
      then show ?thesis using L [OF i(1)] flb [OF blk] B [OF i(2)] by simp
    qed
    moreover have "get_fold_lvl d' e = pl" using G [of e] unfolding pl_def by simp
    ultimately show "fold_level (d' ! i) = get_fold_lvl d' (find_prev_non_blank_block d0 (int (Suc k) - 1))"
      using Pe unfolding P_def by simp
  qed
  have c5: "\<forall>i. Suc i < Suc k \<and> strip (line_text (d0 ! i)) = [] \<longrightarrow> \<not> is_trigger (d' ! i)"
  proof (intro allI impI)
    fix i assume h: "Suc i < Suc k \<and> strip (line_text (d0 ! i)) = []"
    then have i: "i < k" "bl i" "i < length d0" using k unfolding bl_def by auto
    have ne: "int i \<noteq> e" using enb [of i] i(2) by blast
    show "\<not> is_trigger (d' ! i)"
      using T [OF i(3)] ne i(2) C [of i] i(1) by (cases "Suc i = k") auto
  qed
  have c6: "\<forall>i<length d0. find_prev_non_blank_block d0 (int (Suc k) - 1) \<le> int i \<longrightarrow>
            is_trigger (d' ! i) \<longrightarrow> is_trigger (d0 ! i)"
  proof (intro allI impI)
    fix i assume i: "i < length d0"
      and h: "find_prev_non_blank_block d0 (int (Suc k) - 1) \<le> int i"
      and t: "is_trigger (d' ! i)"
    have ge: "e \<le> int i" using h PS ep(2) unfolding P_def [symmetric] by (cases "bl k") auto
    have "is_trigger (d ! i)"
    proof (cases "int i = e")
      case True
      then have "bl k" using h PS ep(2) unfolding P_def [symmetric] by (cases "bl k") auto
      then show ?thesis using T [OF i] True t by simp
    next
      case False
      then show ?thesis using T [OF i] t by (auto split: if_splits)
    qed
    then show "is_trigger (d0 ! i)" using D [OF i ge] by simp
  qed
  show ?thesis unfolding pass_inv_def using c1 c2 c3 c4 c5 c6 by blast
qed

section \<open>The whole pass\<close>

lemma process_lines_append:
  "process_lines det limit d (xs @ ys) =
     (case process_lines det limit d xs of
        Inl e \<Rightarrow> Inl e
      | Inr d' \<Rightarrow> process_lines det limit d' ys)"
  by (induction xs arbitrary: d) (auto split: sum.splits)

lemma process_lines_pass_inv:
  "k \<le> length d0 \<Longrightarrow> process_lines det limit d0 (map int [0..<k]) = Inr d
     \<Longrightarrow> pass_inv d0 k d"
proof (induction k arbitrary: d)
  case 0
  then show ?case by (simp add: pass_inv_0)
next
  case (Suc k)
  have "process_lines det limit d0 (map int [0..<k] @ [int k]) = Inr d"
    using Suc.prems(2) by simp
  then obtain dk where dk: "process_lines det limit d0 (map int [0..<k]) = Inr dk"
    and st: "process_lines det limit dk [int k] = Inr d"
    unfolding process_lines_append by (auto split: sum.splits)
  have inv: "pass_inv d0 k dk" using Suc.IH [OF _ dk] Suc.prems(1) by simp
  have pb: "process_block det limit dk (int k)
               (find_prev_non_blank_block dk (block_previous dk (int k)))
               (block_text dk (int k)) = Inr d"
    using st by (auto split: sum.splits)
  show ?case using pass_inv_step [OF inv _ pb] Suc.prems(1) by simp
qed

lemma process_document_pass_inv:
  "process_document det limit d = Inr d' \<Longrightarrow> pass_inv d (length d) d'"
  unfolding process_document_def by (rule process_lines_pass_inv) simp_all

lemma find_prev_non_blank_block_nearest:
  assumes q: "q \<le> length d0" and pq: "p < q"
    and nb: "strip (line_text (d0 ! p)) \<noteq> []"
    and gap: "\<forall>j. p < j \<and> j < q \<longrightarrow> strip (line_text (d0 ! j)) = []"
  shows "find_prev_non_blank_block d0 (int q - 1) = int p"
proof -
  define e where "e = find_prev_non_blank_block d0 (int q - 1)"
  have bnd: "- 1 \<le> int q - 1" "int q - 1 < int (length d0)" using q pq by auto
  have ep: "- 1 \<le> e" "e \<le> int q - 1" "e = - 1 \<or> strip (block_text d0 e) \<noteq> []"
    "\<And>j. e < j \<Longrightarrow> j \<le> int q - 1 \<Longrightarrow> strip (block_text d0 j) = []"
    using find_prev_non_blank_block_props [OF bnd] unfolding e_def by auto
  have bt: "block_text d0 (int j) = line_text (d0 ! j)" if "j < q" for j
    using that q by (simp add: block_text_def isValid_def)
  have "\<not> e < int p"
  proof
    assume "e < int p"
    then have "strip (block_text d0 (int p)) = []" using ep(4) [of "int p"] pq by simp
    then show False using nb bt [OF pq] by simp
  qed
  moreover have "\<not> int p < e"
  proof
    assume h: "int p < e"
    then have e0: "e \<noteq> - 1" by linarith
    define j where "j = nat e"
    have j: "int j = e" "p < j" "j < q" using h ep(2) unfolding j_def by auto
    have "strip (block_text d0 (int j)) \<noteq> []" using ep(3) e0 unfolding j(1) by simp
    then show False using gap j(2,3) bt [OF j(3)] by simp
  qed
  ultimately show ?thesis unfolding e_def by linarith
qed

lemma find_prev_non_blank_block_none:
  assumes q: "q \<le> length d0"
    and gap: "\<forall>j<q. strip (line_text (d0 ! j)) = []"
  shows "find_prev_non_blank_block d0 (int q - 1) = - 1"
proof (cases "q = 0")
  case True
  then show ?thesis
    by (simp add: find_prev_non_blank_block.simps [of d0 "- 1"] isValid_def)
next
  case False
  define e where "e = find_prev_non_blank_block d0 (int q - 1)"
  have bnd: "- 1 \<le> int q - 1" "int q - 1 < int (length d0)" using q False by auto
  have ep: "- 1 \<le> e" "e \<le> int q - 1" "e = - 1 \<or> strip (block_text d0 e) \<noteq> []"
    using find_prev_non_blank_block_props [OF bnd] unfolding e_def by auto
  have "e = - 1"
  proof (rule ccontr)
    assume e0: "e \<noteq> - 1"
    define j where "j = nat e"
    have j: "int j = e" "j < q" using e0 ep(1,2) unfolding j_def by auto
    have "strip (block_text d0 (int j)) \<noteq> []" using ep(3) e0 unfolding j(1) by simp
    moreover have "block_text d0 (int j) = line_text (d0 ! j)"
      using j(2) q by (simp add: block_text_def isValid_def)
    ultimately show False using gap j(2) by simp
  qed
  then show ?thesis unfolding e_def .
qed

text \<open>What the invariant says, line by line.\<close>

lemma pass_inv_non_blank:
  assumes "pass_inv d0 k d" "q < k" "strip (line_text (d0 ! q)) \<noteq> []"
  shows "fold_level (d ! q) \<le> get_fold_lvl d (find_prev_non_blank_block d0 (int q - 1)) + 1"
    and "0 \<le> find_prev_non_blank_block d0 (int q - 1) \<Longrightarrow>
         is_trigger (d ! nat (find_prev_non_blank_block d0 (int q - 1)))
           = (fold_level (d ! q) > get_fold_lvl d (find_prev_non_blank_block d0 (int q - 1)))"
    and "find_prev_non_blank_block d0 (int q - 1) < int i \<Longrightarrow> i < q \<Longrightarrow>
         fold_level (d ! q) \<le> get_fold_lvl d (find_prev_non_blank_block d0 (int q - 1))
           \<Longrightarrow> fold_level (d ! i) = get_fold_lvl d (find_prev_non_blank_block d0 (int q - 1))"
    and "find_prev_non_blank_block d0 (int q - 1) < int i \<Longrightarrow> i < q \<Longrightarrow>
         fold_level (d ! q) > get_fold_lvl d (find_prev_non_blank_block d0 (int q - 1))
           \<Longrightarrow> fold_level (d ! i) \<ge> fold_level (d ! q)"
    and "find_prev_non_blank_block d0 (int q - 1) < int i \<Longrightarrow> i < q \<Longrightarrow>
         fold_level (d ! i) = fold_level (d ! (q - 1))"
  using assms unfolding pass_inv_def by blast+

lemma pass_inv_rest:
  assumes "pass_inv d0 k d"
  shows "length d = length d0"
    and "find_prev_non_blank_block d0 (int k - 1) < int i \<Longrightarrow> i < k \<Longrightarrow>
         fold_level (d ! i) = get_fold_lvl d (find_prev_non_blank_block d0 (int k - 1))"
    and "Suc i < k \<Longrightarrow> strip (line_text (d0 ! i)) = [] \<Longrightarrow> \<not> is_trigger (d ! i)"
    and "i < length d0 \<Longrightarrow> find_prev_non_blank_block d0 (int k - 1) \<le> int i \<Longrightarrow>
         is_trigger (d ! i) \<Longrightarrow> is_trigger (d0 ! i)"
  using assms unfolding pass_inv_def by blast+

lemma find_prev_non_blank_block_run:
  "i \<le> q \<Longrightarrow> q \<le> length d0 \<Longrightarrow>
   \<forall>j. i \<le> j \<and> j < q \<longrightarrow> strip (line_text (d0 ! j)) = [] \<Longrightarrow>
   find_prev_non_blank_block d0 (int q - 1) = find_prev_non_blank_block d0 (int i - 1)"
proof (induction q)
  case 0
  then show ?case by simp
next
  case (Suc q)
  show ?case
  proof (cases "i = Suc q")
    case True
    then show ?thesis by simp
  next
    case False
    then have iq: "i \<le> q" using Suc.prems(1) by simp
    have q: "q < length d0" using Suc.prems(2) by simp
    have bq: "strip (line_text (d0 ! q)) = []" using Suc.prems(3) iq by simp
    have "find_prev_non_blank_block d0 (int (Suc q) - 1) = find_prev_non_blank_block d0 (int q - 1)"
      using find_prev_non_blank_block_Suc [OF q] bq by simp
    also have "\<dots> = find_prev_non_blank_block d0 (int i - 1)"
      using Suc.IH [OF iq] q Suc.prems(3) by simp
    finally show ?thesis .
  qed
qed

lemma find_prev_non_blank_block_below:
  "i \<le> length d0 \<Longrightarrow> - 1 \<le> find_prev_non_blank_block d0 (int i - 1)
     \<and> find_prev_non_blank_block d0 (int i - 1) < int i"
  using find_prev_non_blank_block_props [of "int i - 1" d0] by auto

section \<open>How much the fold level can rise\<close>

text \<open>
  Claim C1, as the code has it. After a pass over all lines (from any state of the line
  store), the level of a non-blank line is at most one more than the level of the
  non-blank line before it (blank lines between them skipped); nothing bounds how far it
  can be below. In \<^verbatim>\<open>process_block\<close> on a non-blank line, the level written
  to the line is the detected level cut to the limit, and, when that exceeds the level
  read at the previous block by more than one, that level plus one: a level is only
  clamped down, never raised.
\<close>

theorem fold_level_rises_by_at_most_one:
  "(process_document det limit d = Inr d' \<and> p < q \<and> q < length d
      \<and> strip (line_text (d ! p)) \<noteq> [] \<and> strip (line_text (d ! q)) \<noteq> []
      \<and> (\<forall>j. p < j \<and> j < q \<longrightarrow> strip (line_text (d ! j)) = [])
    \<longrightarrow> fold_level (d' ! q) \<le> fold_level (d' ! p) + 1)
   \<and> (process_block det limit d0 cur prev txt = Inr d1 \<and> isValid d0 cur
        \<and> strip txt \<noteq> [] \<and> det d0 prev cur = Inr raw
    \<longrightarrow> get_fold_lvl d1 cur =
          (if min raw limit > get_fold_lvl d0 prev + 1 then get_fold_lvl d0 prev + 1
           else min raw limit))"
proof (intro conjI impI)
  assume h: "process_document det limit d = Inr d' \<and> p < q \<and> q < length d
      \<and> strip (line_text (d ! p)) \<noteq> [] \<and> strip (line_text (d ! q)) \<noteq> []
      \<and> (\<forall>j. p < j \<and> j < q \<longrightarrow> strip (line_text (d ! j)) = [])"
  then have inv: "pass_inv d (length d) d'" using process_document_pass_inv by blast
  have P: "find_prev_non_blank_block d (int q - 1) = int p"
    using find_prev_non_blank_block_nearest [of q d p] h by simp
  have len: "length d' = length d" using pass_inv_rest(1) [OF inv] .
  have "fold_level (d' ! q) \<le> get_fold_lvl d' (int p) + 1"
    using pass_inv_non_blank(1) [OF inv, of q] h unfolding P by simp
  moreover have "get_fold_lvl d' (int p) = fold_level (d' ! p)"
    using h len by (simp add: get_fold_lvl_def isValid_def)
  ultimately show "fold_level (d' ! q) \<le> fold_level (d' ! p) + 1" by simp
next
  assume h: "process_block det limit d0 cur prev txt = Inr d1 \<and> isValid d0 cur
        \<and> strip txt \<noteq> [] \<and> det d0 prev cur = Inr raw"
  then have pb: "process_block det limit d0 cur prev txt = Inr d1" and cur: "isValid d0 cur"
    and nb: "strip txt \<noteq> []" and raw: "det d0 prev cur = Inr raw" by simp_all
  from process_block_effect [OF pb cur] obtain fl where
    fl: "fl = (if raw > limit then limit else raw)"
    and len: "length d1 = length d0"
    and lv: "\<And>i. i < length d0 \<Longrightarrow> fold_level (d1 ! i) =
           (if int i = cur
            then (if fl > get_fold_lvl d0 prev + 1 then get_fold_lvl d0 prev + 1 else fl)
            else if fl > get_fold_lvl d0 prev
                    \<and> find_prev_non_blank_block d0 (block_previous d0 cur) < int i \<and> int i < cur
            then fl else fold_level (d0 ! i))"
    using nb raw by auto
  have i: "nat cur < length d0" "int (nat cur) = cur" using cur by (auto simp: isValid_def)
  have "get_fold_lvl d1 cur = fold_level (d1 ! nat cur)"
    using cur len by (simp add: get_fold_lvl_def isValid_def)
  also have "\<dots> = (if fl > get_fold_lvl d0 prev + 1 then get_fold_lvl d0 prev + 1 else fl)"
    using lv [OF i(1)] i(2) by simp
  finally show "get_fold_lvl d1 cur =
          (if min raw limit > get_fold_lvl d0 prev + 1 then get_fold_lvl d0 prev + 1
           else min raw limit)"
    unfolding fl min_def by auto
qed

lemma jump_doc_pass:
  "process_document (IndentFoldDetector_detect_fold_level 4) sys_maxsize jump_doc
     = Inr jump_doc_processed"
  by code_simp

theorem fold_level_rises_by_at_most_one_witness:
  "fold_level (jump_doc_processed ! 1) \<le> fold_level (jump_doc_processed ! 0) + 1
   \<and> get_fold_lvl jump_doc_processed 1 = 1"
proof -
  have a: "(0::nat) < 1" "1 < length jump_doc"
    "strip (line_text (jump_doc ! 0)) \<noteq> []" "strip (line_text (jump_doc ! 1)) \<noteq> []"
    by code_simp+
  have b: "\<forall>j. (0::nat) < j \<and> j < 1 \<longrightarrow> strip (line_text (jump_doc ! j)) = []" by simp
  have c: "process_block (IndentFoldDetector_detect_fold_level 4) sys_maxsize
             (map new_line [''a'', ''        c'']) 1 0 ''        c'' = Inr jump_doc_processed"
    "isValid (map new_line [''a'', ''        c'']) 1" "strip ''        c'' \<noteq> []"
    "IndentFoldDetector_detect_fold_level 4 (map new_line [''a'', ''        c'']) 0 1 = Inr 2"
    by code_simp+
  have e: "(if min 2 sys_maxsize > get_fold_lvl (map new_line [''a'', ''        c'']) 0 + 1
            then get_fold_lvl (map new_line [''a'', ''        c'']) 0 + 1 else min 2 sys_maxsize) = 1"
    by code_simp
  from fold_level_rises_by_at_most_one
    [of "IndentFoldDetector_detect_fold_level 4" sys_maxsize jump_doc jump_doc_processed 0 1
       "map new_line [''a'', ''        c'']" 1 0 "''        c''" jump_doc_processed 2]
    jump_doc_pass a b c e
  show ?thesis by presburger
qed

text \<open>
  The claim as the spec words it bounds the drop too. With the indentation detector the
  levels of the lines \<open>a\<close>, \<open>b\<close> (4 spaces), \<open>c\<close> (8 spaces), \<open>d\<close> are
  0, 1, 2, 0: the adjacent non-blank lines 2 and 3 differ by 2.
\<close>

theorem fold_level_drop_counterexample:
  "process_document (IndentFoldDetector_detect_fold_level 4) sys_maxsize steps_doc
     = Inr steps_doc_processed
   \<and> strip (block_text steps_doc 2) \<noteq> []
   \<and> strip (block_text steps_doc 3) \<noteq> []
   \<and> get_fold_lvl steps_doc_processed 3 - get_fold_lvl steps_doc_processed 2 = - 2"
  by code_simp

section \<open>The level of blank lines\<close>

lemma gap_doc_pass:
  "process_document (IndentFoldDetector_detect_fold_level 4) sys_maxsize gap_doc
     = Inr gap_doc_processed"
  by code_simp

text \<open>
  Claim C3, as the code has it. After a pass over all lines (from any state of the line
  store), take a blank line and the level read at the block the pass finds as its nearest
  preceding non-blank line (the level of that line, or 0 when no non-blank line
  precedes). When no non-blank line follows, the blank line has that level. When a
  non-blank line follows and its level is not greater, the blank line has that level
  too. When the following non-blank line is deeper, it is deeper by exactly one and the
  blank line has at least the level of that following line (the backward walk gives the
  run the detected level of the following line, before that line itself is clamped). All
  blank lines of one run share one level.
\<close>

theorem blank_line_level:
  assumes pass: "process_document det limit d = Inr d'"
    and i: "i < length d" and bl: "strip (line_text (d ! i)) = []"
  shows "((\<forall>j. i < j \<and> j < length d \<longrightarrow> strip (line_text (d ! j)) = [])
            \<longrightarrow> fold_level (d' ! i) = get_fold_lvl d' (find_prev_non_blank_block d (int i - 1)))
     \<and> (\<forall>q. i < q \<and> q < length d \<and> strip (line_text (d ! q)) \<noteq> []
              \<and> (\<forall>j. i < j \<and> j < q \<longrightarrow> strip (line_text (d ! j)) = [])
            \<longrightarrow> (fold_level (d' ! q) \<le> get_fold_lvl d' (find_prev_non_blank_block d (int i - 1))
                   \<longrightarrow> fold_level (d' ! i) = get_fold_lvl d' (find_prev_non_blank_block d (int i - 1)))
              \<and> (fold_level (d' ! q) > get_fold_lvl d' (find_prev_non_blank_block d (int i - 1))
                   \<longrightarrow> fold_level (d' ! q) = get_fold_lvl d' (find_prev_non_blank_block d (int i - 1)) + 1
                     \<and> fold_level (d' ! i) \<ge> fold_level (d' ! q))
              \<and> fold_level (d' ! i) = fold_level (d' ! (q - 1)))
     \<and> (\<forall>p. p < i \<and> strip (line_text (d ! p)) \<noteq> []
              \<and> (\<forall>j. p < j \<and> j < i \<longrightarrow> strip (line_text (d ! j)) = [])
            \<longrightarrow> get_fold_lvl d' (find_prev_non_blank_block d (int i - 1)) = fold_level (d' ! p))
     \<and> ((\<forall>j<i. strip (line_text (d ! j)) = [])
            \<longrightarrow> get_fold_lvl d' (find_prev_non_blank_block d (int i - 1)) = 0)"
proof -
  define e where "e = find_prev_non_blank_block d (int i - 1)"
  have inv: "pass_inv d (length d) d'" using process_document_pass_inv [OF pass] .
  have len: "length d' = length d" using pass_inv_rest(1) [OF inv] .
  have ei: "- 1 \<le> e" "e < int i"
    using find_prev_non_blank_block_below [of i d] i unfolding e_def by auto
  have run: "find_prev_non_blank_block d (int q - 1) = e"
    if "i < q" "q \<le> length d" "\<forall>j. i < j \<and> j < q \<longrightarrow> strip (line_text (d ! j)) = []" for q
  proof -
    have "\<forall>j. i \<le> j \<and> j < q \<longrightarrow> strip (line_text (d ! j)) = []"
    proof (intro allI impI)
      fix j assume "i \<le> j \<and> j < q"
      then show "strip (line_text (d ! j)) = []" using that(3) bl by (cases "j = i") auto
    qed
    from find_prev_non_blank_block_run [OF _ that(2) this] that(1) show ?thesis
      unfolding e_def by simp
  qed
  have c1: "fold_level (d' ! i) = get_fold_lvl d' e"
    if "\<forall>j. i < j \<and> j < length d \<longrightarrow> strip (line_text (d ! j)) = []"
    using pass_inv_rest(2) [OF inv, of i] run [OF i _ that] ei i by simp
  have c2: "(fold_level (d' ! q) \<le> get_fold_lvl d' e \<longrightarrow> fold_level (d' ! i) = get_fold_lvl d' e)
              \<and> (fold_level (d' ! q) > get_fold_lvl d' e
                   \<longrightarrow> fold_level (d' ! q) = get_fold_lvl d' e + 1
                     \<and> fold_level (d' ! i) \<ge> fold_level (d' ! q))
              \<and> fold_level (d' ! i) = fold_level (d' ! (q - 1))"
    if q: "i < q" "q < length d" "strip (line_text (d ! q)) \<noteq> []"
      "\<forall>j. i < j \<and> j < q \<longrightarrow> strip (line_text (d ! j)) = []" for q
  proof -
    have P: "find_prev_non_blank_block d (int q - 1) = e" using run [OF q(1) _ q(4)] q(2) by simp
    have lt: "find_prev_non_blank_block d (int q - 1) < int i" unfolding P using ei(2) .
    note f = pass_inv_non_blank [OF inv q(2) q(3)]
    have a: "fold_level (d' ! q) \<le> get_fold_lvl d' e + 1" using f(1) unfolding P .
    have b: "fold_level (d' ! q) \<le> get_fold_lvl d' e \<Longrightarrow> fold_level (d' ! i) = get_fold_lvl d' e"
      using f(3) [OF lt q(1)] unfolding P .
    have c: "fold_level (d' ! q) > get_fold_lvl d' e \<Longrightarrow> fold_level (d' ! i) \<ge> fold_level (d' ! q)"
      using f(4) [OF lt q(1)] unfolding P .
    have u: "fold_level (d' ! i) = fold_level (d' ! (q - 1))" using f(5) [OF lt q(1)] .
    show ?thesis using a b c u by linarith
  qed
  have c3: "get_fold_lvl d' e = fold_level (d' ! p)"
    if "p < i" "strip (line_text (d ! p)) \<noteq> []"
      "\<forall>j. p < j \<and> j < i \<longrightarrow> strip (line_text (d ! j)) = []" for p
  proof -
    have "e = int p" using find_prev_non_blank_block_nearest [OF _ that] i unfolding e_def by simp
    then show ?thesis using that(1) i len by (simp add: get_fold_lvl_def isValid_def)
  qed
  have c4: "get_fold_lvl d' e = 0" if "\<forall>j<i. strip (line_text (d ! j)) = []"
  proof -
    have "e = - 1" using find_prev_non_blank_block_none [OF _ that] i unfolding e_def by simp
    then show ?thesis by (simp add: get_fold_lvl_def isValid_def)
  qed
  show ?thesis unfolding e_def [symmetric] using c1 c2 c3 c4 by blast
qed

theorem blank_line_level_witness:
  "fold_level (gap_doc_processed ! 1) \<ge> fold_level (gap_doc_processed ! 2)
   \<and> fold_level (gap_doc_processed ! 2)
        = get_fold_lvl gap_doc_processed (find_prev_non_blank_block gap_doc (int 1 - 1)) + 1
   \<and> get_fold_lvl gap_doc_processed (find_prev_non_blank_block gap_doc (int 1 - 1))
        = fold_level (gap_doc_processed ! 0)"
proof -
  have a: "1 < length gap_doc" "strip (line_text (gap_doc ! 1)) = []" by code_simp+
  note t = blank_line_level [OF gap_doc_pass a]
  have q: "(1::nat) < 2 \<and> 2 < length gap_doc \<and> strip (line_text (gap_doc ! 2)) \<noteq> []
           \<and> (\<forall>j. 1 < j \<and> j < 2 \<longrightarrow> strip (line_text (gap_doc ! j)) = [])"
  proof -
    have "2 < length gap_doc" "strip (line_text (gap_doc ! 2)) \<noteq> []" by code_simp+
    then show ?thesis by auto
  qed
  have p: "(0::nat) < 1 \<and> strip (line_text (gap_doc ! 0)) \<noteq> []
           \<and> (\<forall>j. 0 < j \<and> j < 1 \<longrightarrow> strip (line_text (gap_doc ! j)) = [])"
  proof -
    have "strip (line_text (gap_doc ! 0)) \<noteq> []" by code_simp
    then show ?thesis by auto
  qed
  have g: "fold_level (gap_doc_processed ! 2)
             > get_fold_lvl gap_doc_processed (find_prev_non_blank_block gap_doc (int 1 - 1))"
    by code_simp
  note c = t [THEN conjunct2, THEN conjunct1, rule_format, OF q]
  have w1: "fold_level (gap_doc_processed ! 2)
      = get_fold_lvl gap_doc_processed (find_prev_non_blank_block gap_doc (int 1 - 1)) + 1
    \<and> fold_level (gap_doc_processed ! 1) \<ge> fold_level (gap_doc_processed ! 2)"
    using c [THEN conjunct2, THEN conjunct1, rule_format, OF g] .
  have w2: "get_fold_lvl gap_doc_processed (find_prev_non_blank_block gap_doc (int 1 - 1))
        = fold_level (gap_doc_processed ! 0)"
    using t [THEN conjunct2, THEN conjunct2, THEN conjunct1, rule_format, OF p] .
  from w1 w2 show ?thesis by (intro conjI) (rule conjunct2, assumption, rule conjunct1, assumption+)
qed

text \<open>
  The claim as the spec words it fails on the example document with a blank line under
  its first line: the blank line 1 gets level 1 from the walk, and the nearest preceding
  non-blank line 0 has level 0.
\<close>

theorem blank_line_level_counterexample:
  "process_document (IndentFoldDetector_detect_fold_level 4) sys_maxsize gap_doc
     = Inr gap_doc_processed
   \<and> strip (block_text gap_doc 1) = []
   \<and> strip (block_text gap_doc 0) \<noteq> []
   \<and> get_fold_lvl gap_doc_processed 0 = 0
   \<and> get_fold_lvl gap_doc_processed 1 = 1"
  by code_simp

section \<open>Where the triggers are\<close>

text \<open>
  Claim C2, as the code has it. After a pass over all lines (from any state of the line
  store), a line that has a later non-blank line is a trigger if and only if the next
  non-blank line's level is strictly greater than its own, and no blank line between the
  line and that next non-blank line is a trigger: across a blank gap under a deeper line
  the flag sits on the non-blank line before the gap. A line with no later non-blank
  line is never made a trigger by the pass: it is one afterwards only if it was one
  before.
\<close>

theorem trigger_placement:
  assumes pass: "process_document det limit d = Inr d'" and i: "i < length d"
  shows "(\<forall>q. i < q \<and> q < length d \<and> strip (line_text (d ! q)) \<noteq> []
              \<and> (\<forall>j. i < j \<and> j < q \<longrightarrow> strip (line_text (d ! j)) = [])
            \<longrightarrow> is_trigger (d' ! i) = (fold_level (d' ! q) > fold_level (d' ! i))
              \<and> (\<forall>j. i < j \<and> j < q \<longrightarrow> \<not> is_trigger (d' ! j)))
     \<and> ((\<forall>j. i < j \<and> j < length d \<longrightarrow> strip (line_text (d ! j)) = [])
            \<longrightarrow> is_trigger (d' ! i) \<longrightarrow> is_trigger (d ! i))"
proof -
  have inv: "pass_inv d (length d) d'" using process_document_pass_inv [OF pass] .
  have len: "length d' = length d" using pass_inv_rest(1) [OF inv] .
  have run: "find_prev_non_blank_block d (int q - 1) = find_prev_non_blank_block d (int i - 1)"
    if "strip (line_text (d ! i)) = []" "i < q" "q \<le> length d"
      "\<forall>j. i < j \<and> j < q \<longrightarrow> strip (line_text (d ! j)) = []" for q
  proof -
    have "\<forall>j. i \<le> j \<and> j < q \<longrightarrow> strip (line_text (d ! j)) = []"
    proof (intro allI impI)
      fix j assume "i \<le> j \<and> j < q"
      then show "strip (line_text (d ! j)) = []" using that(1,4) by (cases "j = i") auto
    qed
    from find_prev_non_blank_block_run [OF _ that(3) this] that(2) show ?thesis by simp
  qed
  have c1: "is_trigger (d' ! i) = (fold_level (d' ! q) > fold_level (d' ! i))
              \<and> (\<forall>j. i < j \<and> j < q \<longrightarrow> \<not> is_trigger (d' ! j))"
    if q: "i < q" "q < length d" "strip (line_text (d ! q)) \<noteq> []"
      "\<forall>j. i < j \<and> j < q \<longrightarrow> strip (line_text (d ! j)) = []" for q
  proof -
    note f = pass_inv_non_blank [OF inv q(2) q(3)]
    have blanks: "\<not> is_trigger (d' ! j)" if "i < j \<and> j < q" for j
      using pass_inv_rest(3) [OF inv, of j] that q(2,4) by simp
    have "is_trigger (d' ! i) = (fold_level (d' ! q) > fold_level (d' ! i))"
    proof (cases "strip (line_text (d ! i)) = []")
      case False
      have P: "find_prev_non_blank_block d (int q - 1) = int i"
        using find_prev_non_blank_block_nearest [OF _ q(1) False q(4)] q(2) by simp
      have g: "get_fold_lvl d' (int i) = fold_level (d' ! i)"
        using i len by (simp add: get_fold_lvl_def isValid_def)
      show ?thesis using f(2) unfolding P g by simp
    next
      case True
      have P: "find_prev_non_blank_block d (int q - 1) = find_prev_non_blank_block d (int i - 1)"
        using run [OF True q(1) _ q(4)] q(2) by simp
      have lt: "find_prev_non_blank_block d (int q - 1) < int i"
        unfolding P using find_prev_non_blank_block_below [of i d] i by simp
      have nt: "\<not> is_trigger (d' ! i)"
        using pass_inv_rest(3) [OF inv, of i] True q(1,2) by simp
      have "fold_level (d' ! q) \<le> fold_level (d' ! i)"
        using f(3) [OF lt q(1)] f(4) [OF lt q(1)] by linarith
      then show ?thesis using nt by simp
    qed
    then show ?thesis using blanks by blast
  qed
  have c2: "is_trigger (d ! i)"
    if rest: "\<forall>j. i < j \<and> j < length d \<longrightarrow> strip (line_text (d ! j)) = []"
      and t: "is_trigger (d' ! i)"
  proof -
    have "find_prev_non_blank_block d (int (length d) - 1) \<le> int i"
    proof (cases "strip (line_text (d ! i)) = []")
      case False
      show ?thesis using find_prev_non_blank_block_nearest [OF _ i False rest] by simp
    next
      case True
      show ?thesis
        using run [OF True i _ rest] find_prev_non_blank_block_below [of i d] i by simp
    qed
    from pass_inv_rest(4) [OF inv i this t] show ?thesis .
  qed
  show ?thesis using c1 c2 by blast
qed

theorem trigger_placement_witness:
  "is_trigger (gap_doc_processed ! 0)
     = (fold_level (gap_doc_processed ! 2) > fold_level (gap_doc_processed ! 0))
   \<and> \<not> is_trigger (gap_doc_processed ! 1)
   \<and> \<not> is_trigger (gap_doc_processed ! 2)"
proof -
  have l: "0 < length gap_doc" "2 < length gap_doc" by code_simp+
  note t0 = trigger_placement [OF gap_doc_pass l(1)]
  note t2 = trigger_placement [OF gap_doc_pass l(2)]
  have nb: "strip (line_text (gap_doc ! 2)) \<noteq> []" by code_simp
  have b1: "strip (line_text (gap_doc ! 1)) = []" by code_simp
  have q: "(0::nat) < 2 \<and> 2 < length gap_doc \<and> strip (line_text (gap_doc ! 2)) \<noteq> []
           \<and> (\<forall>j. 0 < j \<and> j < 2 \<longrightarrow> strip (line_text (gap_doc ! j)) = [])"
  proof -
    have "strip (line_text (gap_doc ! j)) = []" if "0 < j \<and> j < 2" for j :: nat
    proof -
      have "j = 1" using that by auto
      then show ?thesis using b1 by simp
    qed
    then have "\<forall>j. 0 < j \<and> j < 2 \<longrightarrow> strip (line_text (gap_doc ! j)) = []" by blast
    moreover have "(0::nat) < 2" by simp
    ultimately show ?thesis using l(2) nb by (intro conjI)
  qed
  have r: "\<forall>j. 2 < j \<and> j < length gap_doc \<longrightarrow> strip (line_text (gap_doc ! j)) = []"
  proof -
    have "length gap_doc = 3" by code_simp
    then show ?thesis by auto
  qed
  have n2: "\<not> is_trigger (gap_doc ! 2)" by code_simp
  have one: "(0::nat) < 1 \<and> (1::nat) < 2" by simp
  note c = t0 [THEN conjunct1, rule_format, OF q]
  have a1: "is_trigger (gap_doc_processed ! 0)
     = (fold_level (gap_doc_processed ! 2) > fold_level (gap_doc_processed ! 0))"
    using c by (rule conjunct1)
  have a2: "\<not> is_trigger (gap_doc_processed ! 1)"
    using c [THEN conjunct2, rule_format, of 1] one by simp
  have b: "\<not> is_trigger (gap_doc_processed ! 2)"
    using t2 [THEN conjunct2, THEN mp, OF r] n2 by simp
  from a1 a2 b show ?thesis by (intro conjI)
qed

text \<open>
  The claim as the spec words it fails for a line with no later non-blank line: the pass
  never writes its trigger flag, so a flag left by an earlier pass stays.
\<close>

theorem trigger_stale_counterexample:
  "process_document (IndentFoldDetector_detect_fold_level 4) sys_maxsize stale_doc
     = Inr stale_doc
   \<and> length stale_doc = 1
   \<and> is_fold_trigger stale_doc 0"
  by code_simp

section \<open>The example document, processed\<close>

lemma scenario1_pass:
  "process_document (IndentFoldDetector_detect_fold_level 4) sys_maxsize scenario1
     = Inr scenario1_processed"
  by code_simp

text \<open>
  Claim C4. The document \<open>def f():\<close>, \<open>x = 1\<close>, \<open>y = 2\<close> (both indented by
  four spaces), \<open>z = 3\<close>, freshly loaded and processed line by line with the indentation
  detector at tab width 4, gets the fold levels 0, 1, 1, 0; line 0 is a fold trigger and is
  expanded; a scope can be built on it and its range is (0, 2).
\<close>

theorem scenario1_levels_trigger_range:
  "process_document (IndentFoldDetector_detect_fold_level 4) sys_maxsize scenario1
     = Inr scenario1_processed
   \<and> map fold_level scenario1_processed = [0, 1, 1, 0]
   \<and> FoldScope_init scenario1_processed 0 = Inr (FoldScope 0)
   \<and> is_fold_trigger scenario1_processed 0
   \<and> \<not> collapsed scenario1_processed (FoldScope 0)
   \<and> get_range scenario1_processed (FoldScope 0) True = Some (0, 2)"
  by (simp only: scenario1_pass) code_simp

section \<open>Building a scope\<close>

text \<open>
  Claim C9. Building a \<^verbatim>\<open>FoldScope\<close> on a block that is not a fold trigger
  fails with the constructor's error (Python's \<^verbatim>\<open>ValueError\<close>, the spec's
  InvalidScopeError), and on a fold trigger it succeeds with the scope of that block. The
  constructor only reads the document: it returns the scope or the error and no document.
  In the processed example document, line 1 is not a trigger and building a scope on it
  fails.
\<close>

theorem FoldScope_init_trigger_only:
  "(\<not> is_fold_trigger d blk \<longrightarrow> FoldScope_init d blk = Inl ValueError)
   \<and> (is_fold_trigger d blk \<longrightarrow> FoldScope_init d blk = Inr (FoldScope blk))
   \<and> \<not> is_fold_trigger scenario1_processed 1
   \<and> FoldScope_init scenario1_processed 1 = Inl ValueError"
proof -
  have "\<not> is_fold_trigger scenario1_processed 1" by code_simp
  then show ?thesis by (simp add: FoldScope_init_def)
qed

theorem FoldScope_init_trigger_only_witness:
  "\<not> is_fold_trigger scenario1_processed 3
   \<and> FoldScope_init scenario1_processed 3 = Inl ValueError
   \<and> is_fold_trigger scenario1_processed 0
   \<and> FoldScope_init scenario1_processed 0 = Inr (FoldScope 0)"
proof -
  have a: "\<not> is_fold_trigger scenario1_processed 3" by code_simp
  have b: "is_fold_trigger scenario1_processed 0" by code_simp
  from a b FoldScope_init_trigger_only [of scenario1_processed 3]
    FoldScope_init_trigger_only [of scenario1_processed 0]
  show ?thesis by blast
qed

section \<open>Ranges\<close>

lemma get_range_trim_end:
  "\<not> isValid d blk \<Longrightarrow>
   get_range_trim d blk l = get_range_trim d (int (length d) - 1) (blockNumber d (int (length d) - 1))"
  by (subst get_range_trim.simps)
     (simp add: blockNumber_def block_text_def block_previous_def strip_def lstrip_def rstrip_def)

lemma get_range_trim_valid:
  "k < length d \<Longrightarrow>
   \<exists>l'. get_range_trim d (int k) (int k) = Some l' \<and> 0 \<le> l' \<and> l' \<le> int k
        \<and> (\<forall>t. 0 \<le> t \<and> t \<le> int k \<and> strip (block_text d t) \<noteq> [] \<longrightarrow> t \<le> l')"
proof (induction k)
  case 0
  then have "blockNumber d 0 = 0" by (simp add: blockNumber_def isValid_def)
  then have "get_range_trim d (int 0) (int 0) = Some 0"
    by (simp add: get_range_trim.simps [of d 0 0])
  then show ?case by auto
next
  case (Suc k)
  have v: "isValid d (int (Suc k))" using Suc.prems by (simp add: isValid_def)
  have bn: "blockNumber d (int (Suc k)) = int (Suc k)" using v by (simp add: blockNumber_def)
  show ?case
  proof (cases "strip (block_text d (int (Suc k))) = []")
    case True
    have pv: "block_previous d (int (Suc k)) = int k"
      using v by (auto simp: block_previous_def isValid_def)
    have bk: "blockNumber d (int k) = int k" using Suc.prems by (simp add: blockNumber_def isValid_def)
    have eq: "get_range_trim d (int (Suc k)) (int (Suc k)) = get_range_trim d (int k) (int k)"
      using True bn pv bk by (subst get_range_trim.simps) simp
    from Suc.IH Suc.prems obtain l' where
      l': "get_range_trim d (int k) (int k) = Some l'" "0 \<le> l'" "l' \<le> int k"
      "\<forall>t. 0 \<le> t \<and> t \<le> int k \<and> strip (block_text d t) \<noteq> [] \<longrightarrow> t \<le> l'"
      by auto
    have "\<forall>t. 0 \<le> t \<and> t \<le> int (Suc k) \<and> strip (block_text d t) \<noteq> [] \<longrightarrow> t \<le> l'"
    proof (intro allI impI)
      fix t assume t: "0 \<le> t \<and> t \<le> int (Suc k) \<and> strip (block_text d t) \<noteq> []"
      then have "t \<noteq> int (Suc k)" using True by auto
      then have "t \<le> int k" using t by auto
      then show "t \<le> l'" using l'(4) t by blast
    qed
    then show ?thesis using l' unfolding eq by auto
  next
    case False
    then have "get_range_trim d (int (Suc k)) (int (Suc k)) = Some (int (Suc k))"
      by (subst get_range_trim.simps) simp
    then show ?thesis by auto
  qed
qed

lemma get_range_expand_bounds:
  "get_range_expand d r blk l = (b', l') \<Longrightarrow> isValid d l \<Longrightarrow> l \<le> blk \<or> \<not> isValid d blk
     \<Longrightarrow> isValid d l' \<and> l \<le> l'"
proof (induction d r blk l arbitrary: b' l' rule: get_range_expand.induct)
  case (1 d r blk l)
  show ?case
  proof (cases "isValid d blk \<and> get_fold_lvl d blk > r")
    case True
    then have bn: "blockNumber d blk = blk" by (simp add: blockNumber_def)
    from "1.prems"(1) True
    have rec: "get_range_expand d r (block_next d blk) blk = (b', l')"
      by (simp add: get_range_expand.simps [of d r blk l] bn)
    have nx: "blk \<le> block_next d blk \<or> \<not> isValid d (block_next d blk)"
      by (auto simp: block_next_def isValid_def)
    have vb: "isValid d (blockNumber d blk)" using True bn by simp
    from "1.IH" [OF True, unfolded bn, OF rec _ nx] True
    have "isValid d l' \<and> blk \<le> l'" by simp
    moreover have "l \<le> blk" using "1.prems"(3) True by auto
    ultimately show ?thesis by auto
  next
    case False
    with "1.prems"(1) have "l' = l"
      by (auto simp: get_range_expand.simps [of d r blk l])
    with "1.prems"(2) show ?thesis by simp
  qed
qed

text \<open>
  The range of the scope of any valid block: \<^verbatim>\<open>get_range\<close> returns for
  both values of its flag. When a line follows the trigger the range ends at or after
  that line (before trailing blank lines are dropped); dropping them never goes below a
  non-blank trigger line.
\<close>

lemma get_range_valid:
  assumes t: "isValid d t"
  shows "\<exists>b e. get_range d (FoldScope t) False = Some (t, b)
             \<and> get_range d (FoldScope t) True = Some (t, e)
             \<and> (isValid d (t + 1) \<longrightarrow> t + 1 \<le> b \<and> isValid d b \<and> e \<le> b)
             \<and> (\<not> isValid d (t + 1) \<longrightarrow> b = - 1 \<and> e \<le> t)
             \<and> 0 \<le> e
             \<and> (strip (block_text d t) \<noteq> [] \<longrightarrow> t \<le> e)"
proof (cases "isValid d (t + 1)")
  case n: True
  have nx: "block_next d t = t + 1" using t n by (simp add: block_next_def)
  have bn: "blockNumber d t = t" "blockNumber d (t + 1) = t + 1"
    using t n by (simp_all add: blockNumber_def)
  define r where "r = (if trigger_level d (FoldScope t) = scope_level d (FoldScope t)
                       then trigger_level d (FoldScope t) - 1 else trigger_level d (FoldScope t))"
  obtain b' b where ex: "get_range_expand d r (t + 1) (t + 1) = (b', b)" by fastforce
  from get_range_expand_bounds [OF ex n] have b: "isValid d b" "t + 1 \<le> b" by auto
  have gF: "get_range d (FoldScope t) False = Some (t, b)"
    unfolding get_range_def Let_def using ex by (simp add: nx bn r_def)
  define k where "k = nat b"
  have k: "k < length d" "int k = b" using b(1) unfolding k_def by (auto simp: isValid_def)
  from get_range_trim_valid [OF k(1)] obtain e where
    e: "get_range_trim d b b = Some e" "0 \<le> e" "e \<le> b"
    "\<forall>u. 0 \<le> u \<and> u \<le> b \<and> strip (block_text d u) \<noteq> [] \<longrightarrow> u \<le> e"
    unfolding k(2) by auto
  have fb: "findBlockByNumber d b = b" using b(1) by (simp add: findBlockByNumber_def)
  have b0: "b \<noteq> 0" using b(2) t by (auto simp: isValid_def)
  have gT: "get_range d (FoldScope t) True = Some (t, e)"
    unfolding get_range_def Let_def using ex e(1) b0 by (simp add: nx bn r_def fb)
  have "t \<le> e" if "strip (block_text d t) \<noteq> []"
    using e(4) that t b(2) by (auto simp: isValid_def)
  then show ?thesis using gF gT b e n by auto
next
  case n: False
  have nx: "block_next d t = - 1" using t n by (simp add: block_next_def)
  have bn: "blockNumber d t = t" "blockNumber d (- 1) = - 1"
    using t by (simp_all add: blockNumber_def isValid_def)
  have last: "int (length d) - 1 = t" using t n by (auto simp: isValid_def)
  define r where "r = (if trigger_level d (FoldScope t) = scope_level d (FoldScope t)
                       then trigger_level d (FoldScope t) - 1 else trigger_level d (FoldScope t))"
  have ex: "get_range_expand d r (- 1) (- 1) = (- 1, - 1)"
    by (simp add: get_range_expand.simps [of d r "- 1" "- 1"] isValid_def)
  have gF: "get_range d (FoldScope t) False = Some (t, - 1)"
    unfolding get_range_def Let_def using ex by (simp add: nx bn r_def)
  define k where "k = nat t"
  have k: "k < length d" "int k = t" using t unfolding k_def by (auto simp: isValid_def)
  from get_range_trim_valid [OF k(1)] obtain e where
    e: "get_range_trim d t t = Some e" "0 \<le> e" "e \<le> t"
    "\<forall>u. 0 \<le> u \<and> u \<le> t \<and> strip (block_text d u) \<noteq> [] \<longrightarrow> u \<le> e"
    unfolding k(2) by auto
  have inv: "\<not> isValid d (- 1)" by (simp add: isValid_def)
  have fb: "findBlockByNumber d (- 1) = - 1" by (simp add: findBlockByNumber_def)
  have tr: "get_range_trim d (- 1) (- 1) = Some e"
    using get_range_trim_end [OF inv, of "- 1"] e(1) unfolding last bn(1) by simp
  have gT: "get_range d (FoldScope t) True = Some (t, e)"
    unfolding get_range_def Let_def using ex tr by (simp add: nx bn r_def fb)
  have "t \<le> e" if "strip (block_text d t) \<noteq> []"
    using e(4) that t by (auto simp: isValid_def)
  then show ?thesis using gF gT e n by auto
qed

text \<open>
  Claim C7, where the code breaks it. For a trigger on the last line of the document the
  block after the trigger is invalid, and \<^verbatim>\<open>get_range\<close> takes its
  block number \<open>-1\<close> as last line: called with
  \<^verbatim>\<open>ignore_blank_lines=False\<close> (as \<^verbatim>\<open>unfold\<close> calls it) it
  returns \<open>(0, -1)\<close> on the one-line document whose line still carries a trigger
  flag, a last line before the first line.
\<close>

theorem get_range_last_line_trigger:
  "FoldScope_init stale_doc 0 = Inr (FoldScope 0)
   \<and> block_next stale_doc 0 = - 1
   \<and> get_range stale_doc (FoldScope 0) False = Some (0, - 1)"
  by code_simp

section \<open>Folding a scope\<close>

lemma fold_hide_effect:
  "k \<le> length d \<Longrightarrow>
   length (fold_hide d (int k) e) = length d
   \<and> (\<forall>i<length d. fold_hide d (int k) e ! i =
          (if k \<le> i \<and> int i \<le> e then (d ! i)\<lparr>visible := False\<rparr> else d ! i))"
proof (induction "length d - k" arbitrary: k d)
  case 0
  then have "\<not> isValid d (int k)" by (simp add: isValid_def)
  then have "fold_hide d (int k) e = d" by (simp add: fold_hide.simps [of d "int k" e])
  with 0 show ?case by auto
next
  case (Suc n)
  then have k: "k < length d" by simp
  then have v: "isValid d (int k)" by (simp add: isValid_def)
  have bn: "blockNumber d (int k) = int k" using v by (simp add: blockNumber_def)
  show ?case
  proof (cases "int k \<le> e")
    case False
    then have "fold_hide d (int k) e = d" using bn by (simp add: fold_hide.simps [of d "int k" e])
    with False show ?thesis by auto
  next
    case True
    let ?d1 = "setVisible d (int k) False"
    have l1: "length ?d1 = length d" by simp
    have step: "fold_hide d (int k) e = fold_hide ?d1 (block_next d (int k)) e"
      using True bn v by (simp add: fold_hide.simps [of d "int k" e])
    show ?thesis
    proof (cases "Suc k < length d")
      case True
      then have nx: "block_next d (int k) = int (Suc k)"
        using v by (simp add: block_next_def isValid_def)
      have "n = length ?d1 - Suc k" using Suc.hyps(2) by simp
      from Suc.hyps(1) [OF this] True
      have ih: "length (fold_hide ?d1 (int (Suc k)) e) = length d"
        "\<And>i. i < length d \<Longrightarrow> fold_hide ?d1 (int (Suc k)) e ! i =
          (if Suc k \<le> i \<and> int i \<le> e then (?d1 ! i)\<lparr>visible := False\<rparr> else ?d1 ! i)"
        by auto
      have "fold_hide d (int k) e ! i =
          (if k \<le> i \<and> int i \<le> e then (d ! i)\<lparr>visible := False\<rparr> else d ! i)"
        if "i < length d" for i
        unfolding step nx ih(2) [OF that] using that \<open>int k \<le> e\<close>
        by (auto simp: nth_setVisible)
      then show ?thesis using ih(1) unfolding step nx by simp
    next
      case False
      then have nx: "block_next d (int k) = - 1"
        using v by (simp add: block_next_def isValid_def)
      have "fold_hide ?d1 (- 1) e = ?d1"
        by (simp add: fold_hide.simps [of ?d1 "- 1" e] isValid_def)
      then have eq: "fold_hide d (int k) e = ?d1" unfolding step nx .
      have "?d1 ! i = (if k \<le> i \<and> int i \<le> e then (d ! i)\<lparr>visible := False\<rparr> else d ! i)"
        if "i < length d" for i
        using that False \<open>int k \<le> e\<close> by (auto simp: nth_setVisible)
      then show ?thesis unfolding eq by simp
    qed
  qed
qed

lemma FoldScope_fold_frame:
  assumes tr: "is_fold_trigger d t"
  shows "\<exists>d' e. FoldScope_fold d (FoldScope t) = Some d'
       \<and> get_range d (FoldScope t) True = Some (t, e)
       \<and> length d' = length d
       \<and> collapsed d' (FoldScope t)
       \<and> (\<forall>i<length d.
            line_text (d' ! i) = line_text (d ! i)
          \<and> fold_level (d' ! i) = fold_level (d ! i)
          \<and> is_trigger (d' ! i) = is_trigger (d ! i)
          \<and> trigger_collapsed (d' ! i) = (if int i = t then True else trigger_collapsed (d ! i))
          \<and> visible (d' ! i) = (if t < int i \<and> int i \<le> e then False else visible (d ! i)))"
proof -
  have t: "isValid d t" using tr by (auto simp: is_fold_trigger_def split: if_splits)
  from get_range_valid [OF t] obtain e where
    gT: "get_range d (FoldScope t) True = Some (t, e)" by auto
  let ?d1 = "set_fold_trigger_state d t True"
  define k where "k = nat (t + 1)"
  have k: "k \<le> length d" "int k = t + 1" using t unfolding k_def by (auto simp: isValid_def)
  have hide: "fold_hide ?d1 (block_next d t) e = fold_hide ?d1 (int k) e"
  proof (cases "isValid d (t + 1)")
    case True
    then show ?thesis using t by (simp add: block_next_def k(2))
  next
    case False
    then have "block_next d t = - 1" using t by (simp add: block_next_def)
    moreover have "fold_hide ?d1 (- 1) e = ?d1"
      by (simp add: fold_hide.simps [of ?d1 "- 1" e] isValid_def)
    moreover have "fold_hide ?d1 (int k) e = ?d1"
      using False unfolding k(2) by (simp add: fold_hide.simps [of ?d1 "t + 1" e])
    ultimately show ?thesis by simp
  qed
  have fd: "FoldScope_fold d (FoldScope t) = Some (fold_hide ?d1 (int k) e)"
    unfolding FoldScope_fold_def using gT by (simp add: hide)
  have l1: "k \<le> length ?d1" using k(1) by simp
  from fold_hide_effect [OF l1, of e]
  have fh: "length (fold_hide ?d1 (int k) e) = length d"
    "\<And>i. i < length d \<Longrightarrow> fold_hide ?d1 (int k) e ! i =
          (if k \<le> i \<and> int i \<le> e then (?d1 ! i)\<lparr>visible := False\<rparr> else ?d1 ! i)"
    by auto
  have ki: "(k \<le> i) = (t < int i)" for i using k(2) by linarith
  have fields: "line_text (fold_hide ?d1 (int k) e ! i) = line_text (d ! i)
          \<and> fold_level (fold_hide ?d1 (int k) e ! i) = fold_level (d ! i)
          \<and> is_trigger (fold_hide ?d1 (int k) e ! i) = is_trigger (d ! i)
          \<and> trigger_collapsed (fold_hide ?d1 (int k) e ! i)
               = (if int i = t then True else trigger_collapsed (d ! i))
          \<and> visible (fold_hide ?d1 (int k) e ! i)
               = (if t < int i \<and> int i \<le> e then False else visible (d ! i))"
    if "i < length d" for i
    unfolding fh(2) [OF that] ki using that by (simp add: nth_set_fold_trigger_state)
  have col: "collapsed (fold_hide ?d1 (int k) e) (FoldScope t)"
  proof -
    have i: "nat t < length d" "int (nat t) = t" using t by (auto simp: isValid_def)
    have "trigger_collapsed (fold_hide ?d1 (int k) e ! nat t)" using fields [OF i(1)] i(2) by simp
    then show ?thesis using t fh(1) by (simp add: collapsed_def get_fold_trigger_state_def isValid_def)
  qed
  show ?thesis using fd gT fh(1) col fields by blast
qed

lemma scenario1_fold:
  "FoldScope_fold scenario1_processed (FoldScope 0) = Some scenario1_folded"
  by code_simp

text \<open>
  Claim C6. For the scope of any trigger line, \<^verbatim>\<open>fold\<close> returns; it sets
  the collapsed flag of the trigger line and of no other line; it makes invisible exactly
  the lines after the trigger line up to the last line of the range that
  \<^verbatim>\<open>get_range\<close> gives, and leaves the visibility of every other line, the
  trigger line among them, as it was; texts, fold levels and trigger flags are unchanged.
  In the processed example document, folding the scope of line 0 hides lines 1 and 2,
  leaves lines 0 and 3 visible, and the scope is collapsed afterwards.
\<close>

theorem FoldScope_fold_effect:
  "(FoldScope_init d t = Inr s \<longrightarrow>
      (\<exists>d' e. FoldScope_fold d s = Some d'
         \<and> get_range d s True = Some (t, e)
         \<and> length d' = length d
         \<and> collapsed d' s
         \<and> (\<forall>i<length d.
              line_text (d' ! i) = line_text (d ! i)
            \<and> fold_level (d' ! i) = fold_level (d ! i)
            \<and> is_trigger (d' ! i) = is_trigger (d ! i)
            \<and> trigger_collapsed (d' ! i) = (if int i = t then True else trigger_collapsed (d ! i))
            \<and> visible (d' ! i) = (if t < int i \<and> int i \<le> e then False else visible (d ! i)))))
   \<and> FoldScope_fold scenario1_processed (FoldScope 0) = Some scenario1_folded
   \<and> map visible scenario1_folded = [True, False, False, True]
   \<and> collapsed scenario1_folded (FoldScope 0)"
proof (intro conjI impI)
  assume "FoldScope_init d t = Inr s"
  then have tr: "is_fold_trigger d t" and s: "s = FoldScope t"
    by (auto simp: FoldScope_init_def split: if_splits)
  from FoldScope_fold_frame [OF tr] show "\<exists>d' e. FoldScope_fold d s = Some d'
         \<and> get_range d s True = Some (t, e)
         \<and> length d' = length d
         \<and> collapsed d' s
         \<and> (\<forall>i<length d.
              line_text (d' ! i) = line_text (d ! i)
            \<and> fold_level (d' ! i) = fold_level (d ! i)
            \<and> is_trigger (d' ! i) = is_trigger (d ! i)
            \<and> trigger_collapsed (d' ! i) = (if int i = t then True else trigger_collapsed (d ! i))
            \<and> visible (d' ! i) = (if t < int i \<and> int i \<le> e then False else visible (d ! i)))"
    unfolding s .
next
  show "FoldScope_fold scenario1_processed (FoldScope 0) = Some scenario1_folded"
    by (rule scenario1_fold)
next
  show "map visible scenario1_folded = [True, False, False, True]" by code_simp
next
  show "collapsed scenario1_folded (FoldScope 0)" by code_simp
qed

theorem FoldScope_fold_effect_witness:
  "FoldScope_init scenario1_processed 0 = Inr (FoldScope 0)
   \<and> collapsed scenario1_folded (FoldScope 0)
   \<and> visible (scenario1_folded ! 0) = visible (scenario1_processed ! 0)
   \<and> \<not> visible (scenario1_folded ! 1)
   \<and> \<not> visible (scenario1_folded ! 2)
   \<and> visible (scenario1_folded ! 3) = visible (scenario1_processed ! 3)"
proof -
  have i: "FoldScope_init scenario1_processed 0 = Inr (FoldScope 0)" by code_simp
  from FoldScope_fold_effect [of scenario1_processed 0 "FoldScope 0", THEN conjunct1, THEN mp, OF i]
  obtain d' e where
    f: "FoldScope_fold scenario1_processed (FoldScope 0) = Some d'"
    and g: "get_range scenario1_processed (FoldScope 0) True = Some (0, e)"
    and c: "collapsed d' (FoldScope 0)"
    and v: "\<And>i. i < length scenario1_processed \<Longrightarrow>
              visible (d' ! i) = (if 0 < int i \<and> int i \<le> e then False
                                  else visible (scenario1_processed ! i))"
    by blast
  have d': "d' = scenario1_folded" using f scenario1_fold by simp
  have "get_range scenario1_processed (FoldScope 0) True = Some (0, 2)" by code_simp
  then have e: "e = 2" using g by simp
  have l: "0 < length scenario1_processed" "1 < length scenario1_processed"
    "2 < length scenario1_processed" "3 < length scenario1_processed" by code_simp+
  from v [OF l(1)] v [OF l(2)] v [OF l(3)] v [OF l(4)] c i
  show ?thesis unfolding d' e by simp
qed

section \<open>Folding twice, and unfolding after folding\<close>

text \<open>
  \<^verbatim>\<open>get_range\<close> reads the texts and fold levels of the lines only: two documents
  that agree on them have the same ranges and scope levels.
\<close>

lemma get_range_expand_cong:
  "length d1 = length d \<Longrightarrow> (\<forall>i<length d. fold_level (d1 ! i) = fold_level (d ! i)) \<Longrightarrow>
   get_range_expand d1 r blk l = get_range_expand d r blk l"
proof (induction d r blk l rule: get_range_expand.induct)
  case (1 d r blk l)
  have v: "isValid d1 x = isValid d x" for x using "1.prems"(1) by (simp add: isValid_def)
  have g: "get_fold_lvl d1 x = get_fold_lvl d x" for x
    using "1.prems" by (auto simp: get_fold_lvl_def isValid_def)
  have n: "block_next d1 x = block_next d x" for x by (simp add: block_next_def v)
  have b: "blockNumber d1 x = blockNumber d x" for x by (simp add: blockNumber_def v)
  show ?case
  proof (cases "isValid d blk \<and> get_fold_lvl d blk > r")
    case True
    from "1.IH" [OF True "1.prems"] True show ?thesis
      by (simp add: get_range_expand.simps [of d1 r blk l] get_range_expand.simps [of d r blk l]
          v g n b)
  next
    case False
    then show ?thesis
      by (auto simp: get_range_expand.simps [of d1 r blk l] get_range_expand.simps [of d r blk l]
          v g)
  qed
qed

lemma get_range_trim_cong_valid:
  assumes len: "length d1 = length d"
    and tx: "\<forall>i<length d. line_text (d1 ! i) = line_text (d ! i)"
  shows "k < length d \<Longrightarrow> get_range_trim d1 (int k) l = get_range_trim d (int k) l"
proof (induction k arbitrary: l)
  case 0
  have "blockNumber d1 0 = 0" "blockNumber d 0 = 0"
    using 0 len by (simp_all add: blockNumber_def isValid_def)
  then show ?case
    by (simp add: get_range_trim.simps [of d1 0 l] get_range_trim.simps [of d 0 l])
next
  case (Suc k)
  have v: "isValid d (int (Suc k))" "isValid d1 (int (Suc k))"
    using Suc.prems len by (simp_all add: isValid_def)
  have bn: "blockNumber d (int (Suc k)) = int (Suc k)" "blockNumber d1 (int (Suc k)) = int (Suc k)"
    using v by (simp_all add: blockNumber_def)
  have bk: "blockNumber d (int k) = int k" "blockNumber d1 (int k) = int k"
    using Suc.prems len by (simp_all add: blockNumber_def isValid_def)
  have pv: "block_previous d (int (Suc k)) = int k" "block_previous d1 (int (Suc k)) = int k"
    using v by (auto simp: block_previous_def isValid_def)
  have bt: "block_text d1 (int (Suc k)) = block_text d (int (Suc k))"
    using v tx Suc.prems by (simp add: block_text_def)
  have ih: "get_range_trim d1 (int k) (int k) = get_range_trim d (int k) (int k)"
    using Suc.IH [of "int k"] Suc.prems by simp
  have "get_range_trim d1 (int (Suc k)) l =
        (if blockNumber d (int (Suc k)) \<noteq> 0 \<and> strip (block_text d (int (Suc k))) = []
         then get_range_trim d (int k) (int k) else Some l)"
    unfolding get_range_trim.simps [of d1 "int (Suc k)" l] pv bk bt bn ih ..
  also have "\<dots> = get_range_trim d (int (Suc k)) l"
    unfolding get_range_trim.simps [of d "int (Suc k)" l] pv bk ..
  finally show ?case .
qed

lemma get_range_trim_cong:
  assumes len: "length d1 = length d"
    and tx: "\<forall>i<length d. line_text (d1 ! i) = line_text (d ! i)"
    and ne: "d \<noteq> []"
  shows "get_range_trim d1 b l = get_range_trim d b l"
proof (cases "isValid d b")
  case True
  then have k: "nat b < length d" "int (nat b) = b" by (auto simp: isValid_def)
  from get_range_trim_cong_valid [OF len tx k(1), of l] show ?thesis unfolding k(2) .
next
  case False
  then have f1: "\<not> isValid d1 b" using len by (simp add: isValid_def)
  define k where "k = length d - 1"
  have k: "k < length d" "int k = int (length d) - 1" using ne unfolding k_def by (auto simp: Suc_leI)
  have bn: "blockNumber d1 (int k) = blockNumber d (int k)"
    using len by (simp add: blockNumber_def isValid_def)
  show ?thesis
    unfolding get_range_trim_end [OF False] get_range_trim_end [OF f1] len k(2) [symmetric] bn
    by (rule get_range_trim_cong_valid [OF len tx k(1)])
qed

lemma get_range_cong:
  assumes len: "length d1 = length d"
    and tx: "\<forall>i<length d. line_text (d1 ! i) = line_text (d ! i)"
    and lv: "\<forall>i<length d. fold_level (d1 ! i) = fold_level (d ! i)"
    and ne: "d \<noteq> []"
  shows "get_range d1 s ign = get_range d s ign"
proof -
  have v: "isValid d1 x = isValid d x" for x using len by (simp add: isValid_def)
  have g: "get_fold_lvl d1 x = get_fold_lvl d x" for x
    using lv len by (auto simp: get_fold_lvl_def isValid_def)
  have n: "block_next d1 x = block_next d x" for x by (simp add: block_next_def v)
  have b: "blockNumber d1 x = blockNumber d x" for x by (simp add: blockNumber_def v)
  have f: "findBlockByNumber d1 x = findBlockByNumber d x" for x
    by (simp add: findBlockByNumber_def v)
  have ex: "get_range_expand d1 r blk l = get_range_expand d r blk l" for r blk l
    using get_range_expand_cong [OF len lv] .
  have tr: "get_range_trim d1 blk l = get_range_trim d blk l" for blk l
    using get_range_trim_cong [OF len tx ne] .
  show ?thesis
    unfolding get_range_def trigger_level_def scope_level_def g n b f ex tr ..
qed

lemma FoldScope_fold_twice:
  assumes tr: "is_fold_trigger d t"
  shows "\<exists>d1. FoldScope_fold d (FoldScope t) = Some d1
             \<and> FoldScope_fold d1 (FoldScope t) = Some d1"
proof -
  have t: "isValid d t" using tr by (auto simp: is_fold_trigger_def split: if_splits)
  then have ne: "d \<noteq> []" by (auto simp: isValid_def)
  from FoldScope_fold_frame [OF tr] obtain d1 e where
    f1: "FoldScope_fold d (FoldScope t) = Some d1"
    and g1: "get_range d (FoldScope t) True = Some (t, e)"
    and l1: "length d1 = length d"
    and n1: "\<And>i. i < length d \<Longrightarrow>
            line_text (d1 ! i) = line_text (d ! i)
          \<and> fold_level (d1 ! i) = fold_level (d ! i)
          \<and> is_trigger (d1 ! i) = is_trigger (d ! i)
          \<and> trigger_collapsed (d1 ! i) = (if int i = t then True else trigger_collapsed (d ! i))
          \<and> visible (d1 ! i) = (if t < int i \<and> int i \<le> e then False else visible (d ! i))"
    by blast
  have tr1: "is_fold_trigger d1 t"
    using tr t l1 n1 [of "nat t"] by (auto simp: is_fold_trigger_def isValid_def)
  have g2: "get_range d1 (FoldScope t) True = Some (t, e)"
    using get_range_cong [OF l1 _ _ ne, of "FoldScope t" True] n1 g1 by simp
  from FoldScope_fold_frame [OF tr1] obtain d2 e' where
    f2: "FoldScope_fold d1 (FoldScope t) = Some d2"
    and g2': "get_range d1 (FoldScope t) True = Some (t, e')"
    and l2: "length d2 = length d1"
    and n2: "\<And>i. i < length d1 \<Longrightarrow>
            line_text (d2 ! i) = line_text (d1 ! i)
          \<and> fold_level (d2 ! i) = fold_level (d1 ! i)
          \<and> is_trigger (d2 ! i) = is_trigger (d1 ! i)
          \<and> trigger_collapsed (d2 ! i) = (if int i = t then True else trigger_collapsed (d1 ! i))
          \<and> visible (d2 ! i) = (if t < int i \<and> int i \<le> e' then False else visible (d1 ! i))"
    by blast
  have e': "e' = e" using g2 g2' by simp
  have "d2 = d1"
  proof (rule nth_equalityI)
    show "length d2 = length d1" by (rule l2)
  next
    fix i assume "i < length d2"
    then have i: "i < length d1" "i < length d" using l1 l2 by simp_all
    show "d2 ! i = d1 ! i"
      using n2 [OF i(1)] n1 [OF i(2)] unfolding e' by (intro line.equality) auto
  qed
  then show ?thesis using f1 f2 by simp
qed

text \<open>
  The lines \<^verbatim>\<open>blocks\<close> and \<^verbatim>\<open>child_regions\<close> yield, and what showing
  a list of blocks does.
\<close>

lemma foldl_setVisible_effect:
  "length (foldl (\<lambda>d b. setVisible d b True) d bs) = length d
   \<and> (\<forall>i<length d. foldl (\<lambda>d b. setVisible d b True) d bs ! i =
          (if int i \<in> set bs then (d ! i)\<lparr>visible := True\<rparr> else d ! i))"
proof (induction bs arbitrary: d)
  case Nil
  show ?case by simp
next
  case (Cons b bs)
  let ?d1 = "setVisible d b True"
  from Cons [of ?d1]
  have ih: "length (foldl (\<lambda>d b. setVisible d b True) ?d1 bs) = length d"
    "\<And>i. i < length d \<Longrightarrow> foldl (\<lambda>d b. setVisible d b True) ?d1 bs ! i =
          (if int i \<in> set bs then (?d1 ! i)\<lparr>visible := True\<rparr> else ?d1 ! i)"
    by auto
  have "foldl (\<lambda>d b. setVisible d b True) d (b # bs) ! i =
          (if int i \<in> set (b # bs) then (d ! i)\<lparr>visible := True\<rparr> else d ! i)"
    if "i < length d" for i
    using ih(2) [OF that] that by (auto simp: nth_setVisible)
  then show ?case using ih(1) by simp
qed

lemma blocks_from_invalid:
  "\<not> isValid d b \<Longrightarrow> blocks_from d r b e = []"
  by (simp add: blocks_from.simps [of d r b e])

lemma blocks_from_upt:
  "k \<le> length d \<Longrightarrow>
   blocks_from d r (int k) e =
     map int (filter (\<lambda>i. int i \<le> e \<and> fold_level (d ! i) = r \<and> \<not> is_trigger (d ! i))
                [k..<length d])"
proof (induction "length d - k" arbitrary: k)
  case 0
  then have "\<not> isValid d (int k)" by (simp add: isValid_def)
  from blocks_from_invalid [OF this] 0 show ?case by simp
next
  case (Suc n)
  then have k: "k < length d" by simp
  then have v: "isValid d (int k)" by (simp add: isValid_def)
  have bn: "blockNumber d (int k) = int k" using v by (simp add: blockNumber_def)
  have up: "[k..<length d] = k # [Suc k..<length d]" using k by (rule upt_conv_Cons)
  show ?case
  proof (cases "int k \<le> e")
    case False
    then have "blocks_from d r (int k) e = []"
      using bn by (simp add: blocks_from.simps [of d r "int k" e])
    moreover have "filter (\<lambda>i. int i \<le> e \<and> fold_level (d ! i) = r \<and> \<not> is_trigger (d ! i))
                [k..<length d] = []"
      using False by (auto simp: filter_empty_conv)
    ultimately show ?thesis by simp
  next
    case True
    have rest: "blocks_from d r (block_next d (int k)) e =
       map int (filter (\<lambda>i. int i \<le> e \<and> fold_level (d ! i) = r \<and> \<not> is_trigger (d ! i))
                [Suc k..<length d])"
    proof (cases "Suc k < length d")
      case True
      then have nx: "block_next d (int k) = int (Suc k)"
        using v by (simp add: block_next_def isValid_def)
      have "n = length d - Suc k" using Suc.hyps(2) by simp
      from Suc.hyps(1) [OF this] True show ?thesis unfolding nx by simp
    next
      case False
      then have nx: "block_next d (int k) = - 1"
        using v by (simp add: block_next_def isValid_def)
      have "\<not> isValid d (- 1)" by (simp add: isValid_def)
      from blocks_from_invalid [OF this] False show ?thesis unfolding nx by simp
    qed
    have "blocks_from d r (int k) e =
        (if fold_level (d ! k) = r \<and> \<not> is_trigger (d ! k) then [int k] else [])
        @ blocks_from d r (block_next d (int k)) e"
      using True bn v
      by (simp add: blocks_from.simps [of d r "int k" e] get_fold_lvl_def is_fold_trigger_def)
    then show ?thesis unfolding rest up using True by simp
  qed
qed

lemma blocks_from_next:
  assumes "isValid d t"
  shows "blocks_from d r (block_next d t) e =
     map int (filter (\<lambda>i. int i \<le> e \<and> fold_level (d ! i) = r \<and> \<not> is_trigger (d ! i))
                [Suc (nat t)..<length d])"
proof (cases "isValid d (t + 1)")
  case True
  then have nx: "block_next d t = int (Suc (nat t))" and k: "Suc (nat t) \<le> length d"
    using assms by (auto simp: block_next_def isValid_def)
  show ?thesis unfolding nx by (rule blocks_from_upt [OF k])
next
  case False
  then have nx: "block_next d t = - 1" by (simp add: block_next_def)
  have e: "[Suc (nat t)..<length d] = []" using False assms by (auto simp: isValid_def)
  have "\<not> isValid d (- 1)" by (simp add: isValid_def)
  from blocks_from_invalid [OF this] show ?thesis unfolding nx e by simp
qed

lemma child_regions_from_invalid:
  "\<not> isValid d b \<Longrightarrow> child_regions_from d r b e = []"
  by (simp add: child_regions_from.simps [of d r b e])

lemma child_regions_from_upt:
  "k \<le> length d \<Longrightarrow>
   child_regions_from d r (int k) e =
     map (\<lambda>i. FoldScope (int i))
       (filter (\<lambda>i. int i \<le> e \<and> fold_level (d ! i) = r \<and> is_trigger (d ! i))
                [k..<length d])"
proof (induction "length d - k" arbitrary: k)
  case 0
  then have "\<not> isValid d (int k)" by (simp add: isValid_def)
  from child_regions_from_invalid [OF this] 0 show ?case by simp
next
  case (Suc n)
  then have k: "k < length d" by simp
  then have v: "isValid d (int k)" by (simp add: isValid_def)
  have bn: "blockNumber d (int k) = int k" using v by (simp add: blockNumber_def)
  have up: "[k..<length d] = k # [Suc k..<length d]" using k by (rule upt_conv_Cons)
  show ?case
  proof (cases "int k \<le> e")
    case False
    then have "child_regions_from d r (int k) e = []"
      using bn by (simp add: child_regions_from.simps [of d r "int k" e])
    moreover have "filter (\<lambda>i. int i \<le> e \<and> fold_level (d ! i) = r \<and> is_trigger (d ! i))
                [k..<length d] = []"
      using False by (auto simp: filter_empty_conv)
    ultimately show ?thesis by simp
  next
    case True
    have rest: "child_regions_from d r (block_next d (int k)) e =
       map (\<lambda>i. FoldScope (int i))
         (filter (\<lambda>i. int i \<le> e \<and> fold_level (d ! i) = r \<and> is_trigger (d ! i))
                [Suc k..<length d])"
    proof (cases "Suc k < length d")
      case True
      then have nx: "block_next d (int k) = int (Suc k)"
        using v by (simp add: block_next_def isValid_def)
      have "n = length d - Suc k" using Suc.hyps(2) by simp
      from Suc.hyps(1) [OF this] True show ?thesis unfolding nx by simp
    next
      case False
      then have nx: "block_next d (int k) = - 1"
        using v by (simp add: block_next_def isValid_def)
      have "\<not> isValid d (- 1)" by (simp add: isValid_def)
      from child_regions_from_invalid [OF this] False show ?thesis unfolding nx by simp
    qed
    have "child_regions_from d r (int k) e =
        (if fold_level (d ! k) = r \<and> is_trigger (d ! k) then [FoldScope (int k)] else [])
        @ child_regions_from d r (block_next d (int k)) e"
      using True bn v
      by (simp add: child_regions_from.simps [of d r "int k" e] get_fold_lvl_def
          is_fold_trigger_def)
    then show ?thesis unfolding rest up using True by simp
  qed
qed

lemma child_regions_from_next:
  assumes "isValid d t"
  shows "child_regions_from d r (block_next d t) e =
     map (\<lambda>i. FoldScope (int i))
       (filter (\<lambda>i. int i \<le> e \<and> fold_level (d ! i) = r \<and> is_trigger (d ! i))
                [Suc (nat t)..<length d])"
proof (cases "isValid d (t + 1)")
  case True
  then have nx: "block_next d t = int (Suc (nat t))" and k: "Suc (nat t) \<le> length d"
    using assms by (auto simp: block_next_def isValid_def)
  show ?thesis unfolding nx by (rule child_regions_from_upt [OF k])
next
  case False
  then have nx: "block_next d t = - 1" by (simp add: block_next_def)
  have e: "[Suc (nat t)..<length d] = []" using False assms by (auto simp: isValid_def)
  have "\<not> isValid d (- 1)" by (simp add: isValid_def)
  from child_regions_from_invalid [OF this] show ?thesis unfolding nx e by simp
qed

text \<open>
  Where the range of a scope ends: at the last line of the run of lines deeper than the
  reference level that starts after the trigger, or at the line after the trigger when
  that line is not deeper. Dropping the trailing blank lines never drops a non-blank line.
\<close>

lemma get_range_expand_run:
  "get_range_expand d r blk l = (b', l') \<Longrightarrow> isValid d blk \<Longrightarrow> get_fold_lvl d blk > r
     \<Longrightarrow> blk \<le> l' \<and> isValid d l'
       \<and> (\<forall>i. blk \<le> i \<and> i \<le> l' \<longrightarrow> get_fold_lvl d i > r)
       \<and> (isValid d (l' + 1) \<longrightarrow> get_fold_lvl d (l' + 1) \<le> r)"
proof (induction d r blk l arbitrary: b' l' rule: get_range_expand.induct)
  case (1 d r blk l)
  have c: "isValid d blk \<and> get_fold_lvl d blk > r" using "1.prems" by simp
  have bn: "blockNumber d blk = blk" using c by (simp add: blockNumber_def)
  from "1.prems"(1) c
  have rec: "get_range_expand d r (block_next d blk) blk = (b', l')"
    by (simp add: get_range_expand.simps [of d r blk l] bn)
  show ?case
  proof (cases "isValid d (blk + 1) \<and> get_fold_lvl d (blk + 1) > r")
    case True
    then have nx: "block_next d blk = blk + 1" using c by (simp add: block_next_def)
    from "1.IH" [OF c, unfolded bn nx, OF rec [unfolded nx]] True
    have ih: "blk + 1 \<le> l'" "isValid d l'"
      "\<forall>i. blk + 1 \<le> i \<and> i \<le> l' \<longrightarrow> get_fold_lvl d i > r"
      "isValid d (l' + 1) \<longrightarrow> get_fold_lvl d (l' + 1) \<le> r"
      by auto
    have "get_fold_lvl d i > r" if "blk \<le> i \<and> i \<le> l'" for i
    proof (cases "i = blk")
      case True
      then show ?thesis using c by simp
    next
      case False
      then have "blk + 1 \<le> i \<and> i \<le> l'" using that by auto
      then show ?thesis using ih(3) by blast
    qed
    then show ?thesis using ih by auto
  next
    case False
    have "\<not> (isValid d (block_next d blk) \<and> get_fold_lvl d (block_next d blk) > r)"
      using False by (auto simp: block_next_def isValid_def)
    then have "get_range_expand d r (block_next d blk) blk = (block_next d blk, blk)"
      by (auto simp: get_range_expand.simps [of d r "block_next d blk" blk])
    then have l': "l' = blk" using rec by simp
    have "get_fold_lvl d i > r" if "blk \<le> i \<and> i \<le> l'" for i
      using that c unfolding l' by (cases "i = blk") auto
    then show ?thesis using c False unfolding l' by auto
  qed
qed

lemma get_range_False_run:
  assumes t: "isValid d t" and n: "isValid d (t + 1)"
    and gF: "get_range d (FoldScope t) False = Some (t, b)"
    and r: "r = (if get_fold_lvl d t = get_fold_lvl d (t + 1)
                 then get_fold_lvl d t - 1 else get_fold_lvl d t)"
  shows "t + 1 \<le> b \<and> isValid d b
       \<and> (get_fold_lvl d (t + 1) > r \<longrightarrow>
            (\<forall>i. t < i \<and> i \<le> b \<longrightarrow> get_fold_lvl d i > r)
          \<and> (isValid d (b + 1) \<longrightarrow> get_fold_lvl d (b + 1) \<le> r))
       \<and> (\<not> get_fold_lvl d (t + 1) > r \<longrightarrow> b = t + 1)"
proof -
  have nx: "block_next d t = t + 1" using t n by (simp add: block_next_def)
  have bn: "blockNumber d t = t" "blockNumber d (t + 1) = t + 1"
    using t n by (simp_all add: blockNumber_def)
  obtain b' b0 where ex: "get_range_expand d r (t + 1) (t + 1) = (b', b0)" by fastforce
  have "get_range d (FoldScope t) False = Some (t, b0)"
    unfolding get_range_def Let_def trigger_level_def scope_level_def
    using ex by (auto simp: nx bn r)
  then have b0: "b0 = b" using gF by simp
  show ?thesis
  proof (cases "get_fold_lvl d (t + 1) > r")
    case True
    from get_range_expand_run [OF ex n True] True show ?thesis unfolding b0 by auto
  next
    case False
    then have "get_range_expand d r (t + 1) (t + 1) = (t + 1, t + 1)"
      by (simp add: get_range_expand.simps [of d r "t + 1" "t + 1"])
    then have "b = t + 1" using ex b0 by simp
    then show ?thesis using False n by simp
  qed
qed

lemma get_range_True_trim:
  assumes t: "isValid d t" and n: "isValid d (t + 1)"
    and gF: "get_range d (FoldScope t) False = Some (t, b)"
    and gT: "get_range d (FoldScope t) True = Some (t, e)"
  shows "e \<le> b \<and> (\<forall>u. 0 \<le> u \<and> u \<le> b \<and> strip (block_text d u) \<noteq> [] \<longrightarrow> u \<le> e)"
proof -
  have nx: "block_next d t = t + 1" using t n by (simp add: block_next_def)
  have bn: "blockNumber d t = t" "blockNumber d (t + 1) = t + 1"
    using t n by (simp_all add: blockNumber_def)
  define r where "r = (if trigger_level d (FoldScope t) = scope_level d (FoldScope t)
                       then trigger_level d (FoldScope t) - 1 else trigger_level d (FoldScope t))"
  obtain b' b0 where ex: "get_range_expand d r (t + 1) (t + 1) = (b', b0)" by fastforce
  have "get_range d (FoldScope t) False = Some (t, b0)"
    unfolding get_range_def Let_def using ex by (simp add: nx bn r_def)
  then have b0: "b0 = b" using gF by simp
  from get_range_expand_bounds [OF ex n] have b: "isValid d b" "t + 1 \<le> b"
    unfolding b0 by auto
  define k where "k = nat b"
  have k: "k < length d" "int k = b" using b(1) unfolding k_def by (auto simp: isValid_def)
  from get_range_trim_valid [OF k(1)] obtain e0 where
    e: "get_range_trim d b b = Some e0" "e0 \<le> b"
    "\<forall>u. 0 \<le> u \<and> u \<le> b \<and> strip (block_text d u) \<noteq> [] \<longrightarrow> u \<le> e0"
    unfolding k(2) by auto
  have fb: "findBlockByNumber d b = b" using b(1) by (simp add: findBlockByNumber_def)
  have bz: "b \<noteq> 0" using b(2) t by (auto simp: isValid_def)
  have "get_range d (FoldScope t) True = Some (t, e0)"
    unfolding get_range_def Let_def using ex [unfolded b0] e(1) bz by (simp add: nx bn r_def fb)
  then have "e0 = e" using gT by simp
  then show ?thesis using e by simp
qed

text \<open>
  Documents with the same structure are read alike by everything that computes levels,
  ranges and scopes.
\<close>

lemma same_structure_refl: "same_structure x x"
  by (simp add: same_structure_def)

lemma same_structure_trans:
  "same_structure x y \<Longrightarrow> same_structure y z \<Longrightarrow> same_structure x z"
  by (simp add: same_structure_def)

lemma same_structure_reads:
  assumes "same_structure x y"
  shows "isValid x c = isValid y c"
    and "get_fold_lvl x c = get_fold_lvl y c"
    and "is_fold_trigger x c = is_fold_trigger y c"
    and "block_text x c = block_text y c"
    and "block_next x c = block_next y c"
    and "scope_level x s = scope_level y s"
proof -
  show v: "isValid x c = isValid y c" for c
    using assms by (simp add: same_structure_def isValid_def)
  show g: "get_fold_lvl x c = get_fold_lvl y c" for c
    using assms by (auto simp: same_structure_def get_fold_lvl_def isValid_def)
  show "is_fold_trigger x c = is_fold_trigger y c"
    using assms by (auto simp: same_structure_def is_fold_trigger_def isValid_def)
  show "block_text x c = block_text y c"
    using assms by (auto simp: same_structure_def block_text_def isValid_def)
  show n: "block_next x c = block_next y c" for c
    by (simp add: block_next_def v)
  show "scope_level x s = scope_level y s"
    by (simp add: scope_level_def g n)
qed

lemma same_structure_get_range:
  assumes "same_structure x y" and "y \<noteq> []"
  shows "get_range x s f = get_range y s f"
  using assms get_range_cong [of x y s f] by (simp add: same_structure_def)

lemma same_structure_well_nested:
  assumes ss: "same_structure x y"
    and c: "\<forall>i<length y. t < int i \<and> trigger_collapsed (x ! i) \<longrightarrow> trigger_collapsed (y ! i)"
    and wn: "well_nested y t b"
  shows "well_nested x t b"
proof -
  have l: "length x = length y" using ss by (simp add: same_structure_def)
  have f: "line_text (x ! i) = line_text (y ! i)" "fold_level (x ! i) = fold_level (y ! i)"
    "is_trigger (x ! i) = is_trigger (y ! i)" if "i < length y" for i
    using ss that by (simp_all add: same_structure_def)
  have g: "get_fold_lvl x c = get_fold_lvl y c" for c by (rule same_structure_reads(2) [OF ss])
  show ?thesis
    unfolding well_nested_def l g
  proof (intro allI impI)
    fix i assume i: "i < length y" and r: "t < int i \<and> int i \<le> b"
    from c i r have "trigger_collapsed (x ! i) \<longrightarrow> trigger_collapsed (y ! i)" by blast
    with wn [unfolded well_nested_def, rule_format, OF i r]
    show "get_fold_lvl y (t + 1) \<le> fold_level (x ! i)
        \<and> (is_trigger (x ! i) \<longleftrightarrow>
             int i < b \<and> fold_level (x ! i) < get_fold_lvl y (int i + 1))
        \<and> (int i < b \<longrightarrow> get_fold_lvl y (int i + 1) \<le> fold_level (x ! i) + 1)
        \<and> (is_trigger (x ! i) \<longrightarrow>
              strip (line_text (x ! i)) \<noteq> [] \<and> \<not> trigger_collapsed (x ! i))"
      unfolding f [OF i] by blast
  qed
qed

text \<open>
  The loop of \<^verbatim>\<open>unfold\<close> over child regions that are not collapsed, given
  what \<^verbatim>\<open>unfold\<close> does on each of them with the fuel left: it returns, and
  shows the lines of every child from its trigger to the end of its range.
\<close>

lemma unfold_regions_well_nested:
  assumes IH: "\<And>y k b. is_fold_trigger y k \<Longrightarrow> get_range y (FoldScope k) False = Some (k, b)
      \<Longrightarrow> well_nested y k b \<Longrightarrow> length y - nat k < n
      \<Longrightarrow> \<exists>y'. unfold_fuel n y (FoldScope k) = Some y' \<and> same_structure y' y
            \<and> (\<forall>i<length y.
                  trigger_collapsed (y' ! i)
                    = (if int i = k then False else trigger_collapsed (y ! i))
                \<and> visible (y' ! i)
                    = (if int i = k \<or> (k < int i \<and> int i \<le> b) then True
                       else visible (y ! i)))"
  shows "\<forall>k\<in>set ks. is_fold_trigger y (int k) \<and> \<not> trigger_collapsed (y ! k)
            \<and> get_range y (FoldScope (int k)) False = Some (int k, bk k)
            \<and> well_nested y (int k) (bk k) \<and> length y - k < n
     \<Longrightarrow> \<exists>y'. unfold_regions n y (map (\<lambda>k. FoldScope (int k)) ks) = Some y'
            \<and> same_structure y' y
            \<and> (\<forall>i<length y.
                  trigger_collapsed (y' ! i) = trigger_collapsed (y ! i)
                \<and> visible (y' ! i)
                    = (visible (y ! i) \<or> (\<exists>k\<in>set ks. k = i \<or> (k < i \<and> int i \<le> bk k))))"
proof (induction ks arbitrary: y)
  case Nil
  show ?case by (simp add: same_structure_refl)
next
  case (Cons k ks)
  from Cons.prems have pk: "is_fold_trigger y (int k)" "\<not> trigger_collapsed (y ! k)"
    "get_range y (FoldScope (int k)) False = Some (int k, bk k)"
    "well_nested y (int k) (bk k)" "length y - k < n"
    by simp_all
  have kv: "isValid y (int k)" using pk(1) by (auto simp: is_fold_trigger_def split: if_splits)
  then have ne: "y \<noteq> []" by (auto simp: isValid_def)
  have nc: "\<not> collapsed y (FoldScope (int k))"
    using pk(2) kv by (simp add: collapsed_def get_fold_trigger_state_def)
  from IH [OF pk(1) pk(3) pk(4)] pk(5) obtain y1 where
    u: "unfold_fuel n y (FoldScope (int k)) = Some y1"
    and ss1: "same_structure y1 y"
    and e1: "\<And>i. i < length y \<Longrightarrow>
                trigger_collapsed (y1 ! i)
                    = (if int i = int k then False else trigger_collapsed (y ! i))
                \<and> visible (y1 ! i)
                    = (if int i = int k \<or> (int k < int i \<and> int i \<le> bk k) then True
                       else visible (y ! i))"
    by auto
  have l1: "length y1 = length y" using ss1 by (simp add: same_structure_def)
  have c1: "trigger_collapsed (y1 ! i) = trigger_collapsed (y ! i)" if "i < length y" for i
    using e1 [OF that] pk(2) by auto
  have pre: "\<forall>k\<in>set ks. is_fold_trigger y1 (int k) \<and> \<not> trigger_collapsed (y1 ! k)
            \<and> get_range y1 (FoldScope (int k)) False = Some (int k, bk k)
            \<and> well_nested y1 (int k) (bk k) \<and> length y1 - k < n"
  proof
    fix k' assume k': "k' \<in> set ks"
    with Cons.prems have p: "is_fold_trigger y (int k')" "\<not> trigger_collapsed (y ! k')"
      "get_range y (FoldScope (int k')) False = Some (int k', bk k')"
      "well_nested y (int k') (bk k')" "length y - k' < n"
      by simp_all
    have kl: "k' < length y" using p(1) by (auto simp: is_fold_trigger_def isValid_def split: if_splits)
    have "well_nested y1 (int k') (bk k')"
      using same_structure_well_nested [OF ss1 _ p(4)] c1 by simp
    then show "is_fold_trigger y1 (int k') \<and> \<not> trigger_collapsed (y1 ! k')
            \<and> get_range y1 (FoldScope (int k')) False = Some (int k', bk k')
            \<and> well_nested y1 (int k') (bk k') \<and> length y1 - k' < n"
      using p same_structure_reads(3) [OF ss1] same_structure_get_range [OF ss1 ne] c1 [OF kl] l1
      by simp
  qed
  from Cons.IH [OF pre] obtain y2 where
    r: "unfold_regions n y1 (map (\<lambda>k. FoldScope (int k)) ks) = Some y2"
    and ss2: "same_structure y2 y1"
    and e2: "\<And>i. i < length y1 \<Longrightarrow>
                  trigger_collapsed (y2 ! i) = trigger_collapsed (y1 ! i)
                \<and> visible (y2 ! i)
                    = (visible (y1 ! i) \<or> (\<exists>k\<in>set ks. k = i \<or> (k < i \<and> int i \<le> bk k)))"
    by auto
  have "unfold_regions n y (map (\<lambda>k. FoldScope (int k)) (k # ks)) = Some y2"
    using nc u r by simp
  moreover have "same_structure y2 y" by (rule same_structure_trans [OF ss2 ss1])
  moreover have "trigger_collapsed (y2 ! i) = trigger_collapsed (y ! i)
                \<and> visible (y2 ! i)
                    = (visible (y ! i) \<or> (\<exists>k\<in>set (k # ks). k = i \<or> (k < i \<and> int i \<le> bk k)))"
    if "i < length y" for i
    using e2 [of i] e1 [OF that] c1 [OF that] that l1 by auto
  ultimately show ?case by blast
qed

lemma get_fold_lvl_nth:
  "i < length x \<Longrightarrow> get_fold_lvl x (int i) = fold_level (x ! i)"
  by (simp add: get_fold_lvl_def isValid_def)

text \<open>
  The scope of a trigger inside a well-nested scope ends inside that scope, is well
  nested itself, and holds every run of deeper lines that follows its trigger.
\<close>

lemma child_scope:
  assumes tv: "isValid x t"
    and gF: "get_range x (FoldScope t) False = Some (t, b)"
    and wn: "well_nested x t b"
    and k: "t < int k" "int k \<le> b" "k < length x" "is_trigger (x ! k)"
    and gk: "get_range x (FoldScope (int k)) False = Some (int k, c)"
  shows "c \<le> b \<and> int k < c \<and> well_nested x (int k) c
       \<and> (\<forall>j. k < j \<and> j < length x
               \<and> (\<forall>i. k < i \<and> i \<le> j \<longrightarrow> fold_level (x ! k) < fold_level (x ! i))
             \<longrightarrow> int j \<le> c)"
proof -
  have kv: "isValid x (int k)" using k(3) by (simp add: isValid_def)
  have tn: "isValid x (t + 1)" using tv k(1,3) by (auto simp: isValid_def)
  from wn [unfolded well_nested_def, rule_format, OF k(3)] k
  have wk: "get_fold_lvl x (t + 1) \<le> fold_level (x ! k)" "int k < b"
    "fold_level (x ! k) < get_fold_lvl x (int k + 1)"
    "get_fold_lvl x (int k + 1) \<le> fold_level (x ! k) + 1"
    by auto
  define rt where "rt = (if get_fold_lvl x t = get_fold_lvl x (t + 1)
                 then get_fold_lvl x t - 1 else get_fold_lvl x t)"
  from get_range_False_run [OF tv tn gF rt_def]
  have pt: "t + 1 \<le> b" "isValid x b"
    "get_fold_lvl x (t + 1) > rt \<Longrightarrow> isValid x (b + 1) \<Longrightarrow> get_fold_lvl x (b + 1) \<le> rt"
    "\<not> get_fold_lvl x (t + 1) > rt \<Longrightarrow> b = t + 1"
    by auto
  have kn: "isValid x (int k + 1)" using pt(2) wk(2) k(1) tv by (auto simp: isValid_def)
  have lk: "get_fold_lvl x (int k) = fold_level (x ! k)" using k(3) by (rule get_fold_lvl_nth)
  have rk: "fold_level (x ! k) = (if get_fold_lvl x (int k) = get_fold_lvl x (int k + 1)
                 then get_fold_lvl x (int k) - 1 else get_fold_lvl x (int k))"
    using wk(3) unfolding lk by simp
  from get_range_False_run [OF kv kn gk rk] wk(3)
  have pk: "int k + 1 \<le> c" "isValid x c"
    "\<And>i. int k < i \<Longrightarrow> i \<le> c \<Longrightarrow> get_fold_lvl x i > fold_level (x ! k)"
    "isValid x (c + 1) \<Longrightarrow> get_fold_lvl x (c + 1) \<le> fold_level (x ! k)"
    by auto
  have cb: "c \<le> b"
  proof (rule ccontr)
    assume "\<not> c \<le> b"
    then have bc: "b + 1 \<le> c" by simp
    then have v: "isValid x (b + 1)" using pk(2) pt(2) by (auto simp: isValid_def)
    have g: "get_fold_lvl x (b + 1) > fold_level (x ! k)"
      using pk(3) [of "b + 1"] bc k(2) by simp
    show False
    proof (cases "get_fold_lvl x (t + 1) > rt")
      case True
      from pt(3) [OF True v] True wk(1) g show False by simp
    next
      case False
      from pt(4) [OF False] wk(2) k(1) show False by simp
    qed
  qed
  have wnk: "well_nested x (int k) c"
    unfolding well_nested_def
  proof (intro allI impI)
    fix i assume i: "i < length x" and r: "int k < int i \<and> int i \<le> c"
    then have rt: "t < int i \<and> int i \<le> b" using k(1) cb by simp
    note w = wn [unfolded well_nested_def, rule_format, OF i rt]
    have li: "fold_level (x ! i) > fold_level (x ! k)"
      using pk(3) [of "int i"] r get_fold_lvl_nth [OF i] by simp
    have a: "get_fold_lvl x (int k + 1) \<le> fold_level (x ! i)" using li wk(4) by simp
    have "int i < c" if "int i < b" "fold_level (x ! i) < get_fold_lvl x (int i + 1)"
    proof (rule ccontr)
      assume "\<not> int i < c"
      then have ic: "int i = c" using r by simp
      have "isValid x (c + 1)" using that(1) pt(2) pk(2) unfolding ic by (auto simp: isValid_def)
      from pk(4) [OF this] that(2) li show False unfolding ic by simp
    qed
    then have b: "is_trigger (x ! i) \<longleftrightarrow>
             int i < c \<and> fold_level (x ! i) < get_fold_lvl x (int i + 1)"
      using w cb by auto
    show "get_fold_lvl x (int k + 1) \<le> fold_level (x ! i)
        \<and> (is_trigger (x ! i) \<longleftrightarrow>
             int i < c \<and> fold_level (x ! i) < get_fold_lvl x (int i + 1))
        \<and> (int i < c \<longrightarrow> get_fold_lvl x (int i + 1) \<le> fold_level (x ! i) + 1)
        \<and> (is_trigger (x ! i) \<longrightarrow>
              strip (line_text (x ! i)) \<noteq> [] \<and> \<not> trigger_collapsed (x ! i))"
      using a b w cb by auto
  qed
  have mx: "int j \<le> c"
    if j: "k < j \<and> j < length x
               \<and> (\<forall>i. k < i \<and> i \<le> j \<longrightarrow> fold_level (x ! k) < fold_level (x ! i))" for j
  proof (rule ccontr)
    assume "\<not> int j \<le> c"
    then have cj: "c + 1 \<le> int j" by simp
    define m where "m = nat (c + 1)"
    have m: "int m = c + 1" "k < m" "m \<le> j" "m < length x"
      using cj pk(1) j unfolding m_def by auto
    have v: "isValid x (c + 1)" using m by (auto simp: isValid_def)
    have "get_fold_lvl x (c + 1) = fold_level (x ! m)"
      using get_fold_lvl_nth [OF m(4)] unfolding m(1) .
    with pk(4) [OF v] j m show False by auto
  qed
  show ?thesis using cb pk(1) wnk mx by simp
qed

text \<open>
  \<^verbatim>\<open>unfold\<close> on a well-nested scope returns, with fuel for the lines from
  the trigger to the end of the document. It expands the trigger and shows the trigger
  line and every line of the scope: a line at the level of the scope is shown directly or
  is the trigger of a child scope, and a deeper line lies in the scope of the last line
  at the level of the scope before it.
\<close>

lemma unfold_fuel_well_nested:
  "is_fold_trigger x t \<Longrightarrow> get_range x (FoldScope t) False = Some (t, b)
     \<Longrightarrow> well_nested x t b \<Longrightarrow> length x - nat t < n
     \<Longrightarrow> \<exists>x'. unfold_fuel n x (FoldScope t) = Some x' \<and> same_structure x' x
            \<and> (\<forall>i<length x.
                  trigger_collapsed (x' ! i)
                    = (if int i = t then False else trigger_collapsed (x ! i))
                \<and> visible (x' ! i)
                    = (if int i = t \<or> (t < int i \<and> int i \<le> b) then True
                       else visible (x ! i)))"
proof (induction n arbitrary: x t b)
  case 0
  then show ?case by simp
next
  case (Suc n)
  note tr = Suc.prems(1) and gF = Suc.prems(2) and wn = Suc.prems(3) and fuel = Suc.prems(4)
  let ?s = "FoldScope t"
  have tv: "isValid x t" using tr by (auto simp: is_fold_trigger_def split: if_splits)
  then have ne: "x \<noteq> []" and tn: "nat t < length x" "int (nat t) = t"
    by (auto simp: isValid_def)
  define lvl where "lvl = scope_level x ?s"
  define x2 where "x2 = set_fold_trigger_state (setVisible x t True) t False"
  have l2: "length x2 = length x" unfolding x2_def by simp
  have f2: "line_text (x2 ! i) = line_text (x ! i)
          \<and> fold_level (x2 ! i) = fold_level (x ! i)
          \<and> is_trigger (x2 ! i) = is_trigger (x ! i)
          \<and> trigger_collapsed (x2 ! i) = (if int i = t then False else trigger_collapsed (x ! i))
          \<and> visible (x2 ! i) = (if int i = t then True else visible (x ! i))"
    if "i < length x" for i
    using that unfolding x2_def by (simp add: nth_setters)
  have ss2: "same_structure x2 x" unfolding same_structure_def using l2 f2 by simp
  have gF2: "get_range x2 ?s False = Some (t, b)"
    using same_structure_get_range [OF ss2 ne] gF by simp
  have sl2: "scope_level x2 ?s = lvl" unfolding lvl_def by (rule same_structure_reads(6) [OF ss2])
  have tv2: "isValid x2 t" using tv same_structure_reads(1) [OF ss2] by simp
  define bs where "bs = blocks_from x2 lvl (block_next x2 t) b"
  have blocks2: "blocks x2 ?s False = Some bs"
    unfolding blocks_def gF2 sl2 bs_def by simp
  have bs_set: "int i \<in> set bs \<longleftrightarrow>
      t < int i \<and> int i \<le> b \<and> fold_level (x ! i) = lvl \<and> \<not> is_trigger (x ! i)"
    if "i < length x" for i
  proof -
    have "set bs = int ` {i \<in> {Suc (nat t)..<length x}.
              int i \<le> b \<and> fold_level (x2 ! i) = lvl \<and> \<not> is_trigger (x2 ! i)}"
      unfolding bs_def blocks_from_next [OF tv2] l2 by simp
    then have "int i \<in> set bs \<longleftrightarrow>
        (Suc (nat t) \<le> i \<and> int i \<le> b \<and> fold_level (x2 ! i) = lvl \<and> \<not> is_trigger (x2 ! i))"
      using that by auto
    moreover have "Suc (nat t) \<le> i \<longleftrightarrow> t < int i" using tv unfolding isValid_def by linarith
    ultimately show ?thesis using f2 [OF that] by simp
  qed
  define x3 where "x3 = foldl (\<lambda>d b. setVisible d b True) x2 bs"
  from foldl_setVisible_effect [of x2 bs]
  have l3: "length x3 = length x"
    and n3: "\<And>i. i < length x \<Longrightarrow>
          x3 ! i = (if int i \<in> set bs then (x2 ! i)\<lparr>visible := True\<rparr> else x2 ! i)"
    unfolding x3_def l2 by auto
  have f3: "line_text (x3 ! i) = line_text (x ! i)
          \<and> fold_level (x3 ! i) = fold_level (x ! i)
          \<and> is_trigger (x3 ! i) = is_trigger (x ! i)
          \<and> trigger_collapsed (x3 ! i) = (if int i = t then False else trigger_collapsed (x ! i))
          \<and> visible (x3 ! i) = (if int i = t \<or> int i \<in> set bs then True else visible (x ! i))"
    if "i < length x" for i
    using n3 [OF that] f2 [OF that] by simp
  have ss3: "same_structure x3 x" unfolding same_structure_def using l3 f3 by simp
  from get_range_valid [OF tv] obtain e where gT: "get_range x ?s True = Some (t, e)" by auto
  have gT3: "get_range x3 ?s True = Some (t, e)"
    using same_structure_get_range [OF ss3 ne] gT by simp
  have sl3: "scope_level x3 ?s = lvl" unfolding lvl_def by (rule same_structure_reads(6) [OF ss3])
  have tv3: "isValid x3 t" using tv same_structure_reads(1) [OF ss3] by simp
  define ks where "ks = filter (\<lambda>i. int i \<le> e \<and> fold_level (x3 ! i) = lvl \<and> is_trigger (x3 ! i))
                [Suc (nat t)..<length x3]"
  have regions3: "child_regions x3 ?s = Some (map (\<lambda>k. FoldScope (int k)) ks)"
    unfolding child_regions_def gT3 sl3 ks_def using child_regions_from_next [OF tv3] by simp
  have step: "unfold_fuel (Suc n) x ?s = unfold_regions n x3 (map (\<lambda>k. FoldScope (int k)) ks)"
    using blocks2 regions3
    by (simp add: Let_def x2_def [symmetric] x3_def [symmetric])
  have ks_mem: "k \<in> set ks \<longleftrightarrow>
      t < int k \<and> k < length x \<and> int k \<le> e \<and> fold_level (x ! k) = lvl \<and> is_trigger (x ! k)"
    for k
  proof -
    have "Suc (nat t) \<le> k \<longleftrightarrow> t < int k" using tv unfolding isValid_def by linarith
    then show ?thesis unfolding ks_def l3 using f3 [of k] by auto
  qed
  have under: "isValid x (t + 1) \<and> lvl = get_fold_lvl x (t + 1) \<and> e \<le> b
      \<and> (\<forall>u. 0 \<le> u \<and> u \<le> b \<and> strip (block_text x u) \<noteq> [] \<longrightarrow> u \<le> e)"
    if "t < int i" "i < length x" for i
  proof -
    have v: "isValid x (t + 1)" using tv that by (auto simp: isValid_def)
    then have "block_next x t = t + 1" using tv by (simp add: block_next_def)
    then have "lvl = get_fold_lvl x (t + 1)" unfolding lvl_def scope_level_def by simp
    with v get_range_True_trim [OF tv v gF gT] show ?thesis by simp
  qed
  define bk where "bk k = snd (the (get_range x (FoldScope (int k)) False))" for k
  have child: "get_range x (FoldScope (int k)) False = Some (int k, bk k)
      \<and> bk k \<le> b \<and> int k < bk k \<and> well_nested x (int k) (bk k)
      \<and> (\<forall>j. k < j \<and> j < length x
               \<and> (\<forall>i. k < i \<and> i \<le> j \<longrightarrow> fold_level (x ! k) < fold_level (x ! i))
             \<longrightarrow> int j \<le> bk k)"
    if k: "t < int k" "int k \<le> b" "k < length x" "is_trigger (x ! k)" for k
  proof -
    have kv: "isValid x (int k)" using k(3) by (simp add: isValid_def)
    from get_range_valid [OF kv] obtain c where
      g: "get_range x (FoldScope (int k)) False = Some (int k, c)" by auto
    then have c: "bk k = c" unfolding bk_def by simp
    from child_scope [OF tv gF wn k g] g show ?thesis unfolding c by simp
  qed
  have pre: "\<forall>k\<in>set ks. is_fold_trigger x3 (int k) \<and> \<not> trigger_collapsed (x3 ! k)
            \<and> get_range x3 (FoldScope (int k)) False = Some (int k, bk k)
            \<and> well_nested x3 (int k) (bk k) \<and> length x3 - k < n"
  proof
    fix k assume "k \<in> set ks"
    then have k: "t < int k" "k < length x" "int k \<le> e" "is_trigger (x ! k)"
      unfolding ks_mem by simp_all
    from under [OF k(1,2)] k(3) have kb: "int k \<le> b" by simp
    note c = child [OF k(1) kb k(2) k(4)]
    have nck: "\<not> trigger_collapsed (x ! k)"
      using wn [unfolded well_nested_def, rule_format, OF k(2)] k(1,4) kb by simp
    have "is_fold_trigger x3 (int k)"
      using k(2,4) f3 [OF k(2)] l3
      by (simp add: is_fold_trigger_def isValid_def)
    moreover have "\<not> trigger_collapsed (x3 ! k)" using f3 [OF k(2)] nck by simp
    moreover have "get_range x3 (FoldScope (int k)) False = Some (int k, bk k)"
      using same_structure_get_range [OF ss3 ne] c by simp
    moreover have "well_nested x3 (int k) (bk k)"
    proof (rule same_structure_well_nested [OF ss3])
      show "\<forall>i<length x. int k < int i \<and> trigger_collapsed (x3 ! i)
              \<longrightarrow> trigger_collapsed (x ! i)"
        using f3 by (simp split: if_splits)
      show "well_nested x (int k) (bk k)" using c by simp
    qed
    moreover have "length x3 - k < n" using fuel k(1,2) tn l3 by linarith
    ultimately show "is_fold_trigger x3 (int k) \<and> \<not> trigger_collapsed (x3 ! k)
            \<and> get_range x3 (FoldScope (int k)) False = Some (int k, bk k)
            \<and> well_nested x3 (int k) (bk k) \<and> length x3 - k < n"
      by simp
  qed
  from unfold_regions_well_nested [where n = n and y = x3 and ks = ks and bk = bk, OF Suc.IH pre]
  obtain x' where
    r: "unfold_regions n x3 (map (\<lambda>k. FoldScope (int k)) ks) = Some x'"
    and ss': "same_structure x' x3"
    and e': "\<And>i. i < length x3 \<Longrightarrow>
                  trigger_collapsed (x' ! i) = trigger_collapsed (x3 ! i)
                \<and> visible (x' ! i)
                    = (visible (x3 ! i) \<or> (\<exists>k\<in>set ks. k = i \<or> (k < i \<and> int i \<le> bk k)))"
    by blast
  have vis: "visible (x' ! i) = (if int i = t \<or> (t < int i \<and> int i \<le> b) then True
                       else visible (x ! i))"
    if i: "i < length x" for i
  proof (cases "int i = t")
    case True
    then show ?thesis using e' [of i] f3 [OF i] i l3 by simp
  next
    case nt: False
    show ?thesis
    proof (cases "t < int i \<and> int i \<le> b")
      case False
      have "\<not> (k = i \<or> (k < i \<and> int i \<le> bk k))" if "k \<in> set ks" for k
      proof -
        from that have k: "t < int k" "k < length x" "int k \<le> e" "is_trigger (x ! k)"
          unfolding ks_mem by simp_all
        from under [OF k(1,2)] k(3) have kb: "int k \<le> b" by simp
        from child [OF k(1) kb k(2) k(4)] have "bk k \<le> b" by simp
        then show ?thesis using False k(1) kb by auto
      qed
      moreover have "int i \<notin> set bs" using bs_set [OF i] False by blast
      ultimately show ?thesis using e' [of i] f3 [OF i] i l3 nt False by auto
    next
      case True
      note u = under [OF True [THEN conjunct1] i]
      note w = wn [unfolded well_nested_def, rule_format, OF i True]
      have ge: "lvl \<le> fold_level (x ! i)" using w u by simp
      have "int i \<in> set bs \<or> (\<exists>k\<in>set ks. k = i \<or> (k < i \<and> int i \<le> bk k))"
      proof (cases "fold_level (x ! i) = lvl")
        case eq: True
        show ?thesis
        proof (cases "is_trigger (x ! i)")
          case False
          then show ?thesis using bs_set [OF i] True eq by simp
        next
          case tri: True
          then have "strip (block_text x (int i)) \<noteq> []"
            using w i by (simp add: block_text_def isValid_def)
          then have "int i \<le> e" using u True by simp
          then have "i \<in> set ks" unfolding ks_mem using True i eq tri by simp
          then show ?thesis by blast
        qed
      next
        case neq: False
        then have gt: "lvl < fold_level (x ! i)" using ge by simp
        define P where "P j \<longleftrightarrow> t < int j \<and> j < i \<and> fold_level (x ! j) = lvl" for j
        have t1: "P (Suc (nat t))"
        proof -
          have a: "int (Suc (nat t)) = t + 1" using tn by simp
          have "isValid x (t + 1)" using u by simp
          then have "Suc (nat t) < length x" using tn unfolding isValid_def by linarith
          from get_fold_lvl_nth [OF this] u
          have "fold_level (x ! Suc (nat t)) = lvl" unfolding a by simp
          moreover have "Suc (nat t) \<le> i" using True tn by linarith
          ultimately have "Suc (nat t) < i" using neq by (cases "Suc (nat t) = i") auto
          then show ?thesis unfolding P_def using \<open>fold_level (x ! Suc (nat t)) = lvl\<close> tn by simp
        qed
        have "\<forall>y. P y \<longrightarrow> y \<le> i" unfolding P_def by simp
        from Nat.ex_has_greatest_nat [of P, OF t1 this] obtain k where
          k: "P k" "\<forall>y. P y \<longrightarrow> y \<le> k" by blast
        then have kp: "t < int k" "k < i" "fold_level (x ! k) = lvl" unfolding P_def by simp_all
        have kl: "k < length x" and kb: "int k < b" using kp(2) i True by simp_all
        have deeper: "fold_level (x ! k) < fold_level (x ! j)" if j: "k < j \<and> j \<le> i" for j
        proof (cases "j = i")
          case True
          then show ?thesis using gt kp(3) by simp
        next
          case False
          then have ji: "j < i" using j by simp
          then have jl: "j < length x" using i by simp
          have jr: "t < int j \<and> int j \<le> b" using j kp(1) True by simp
          from wn [unfolded well_nested_def, rule_format, OF jl jr] u
          have "lvl \<le> fold_level (x ! j)" by simp
          moreover have "fold_level (x ! j) \<noteq> lvl"
          proof
            assume "fold_level (x ! j) = lvl"
            then have "P j" unfolding P_def using jr ji by simp
            with k(2) j show False by auto
          qed
          ultimately show ?thesis using kp(3) by simp
        qed
        have sk: "Suc k < length x" using kp(2) i by simp
        have "fold_level (x ! k) < get_fold_lvl x (int k + 1)"
          using deeper [of "Suc k"] kp(2) get_fold_lvl_nth [OF sk] by (simp add: add.commute)
        then have tk: "is_trigger (x ! k)"
          using wn [unfolded well_nested_def, rule_format, OF kl] kp(1) kb by simp
        then have "strip (block_text x (int k)) \<noteq> []"
          using wn [unfolded well_nested_def, rule_format, OF kl] kp(1) kb kl
          by (simp add: block_text_def isValid_def)
        then have "int k \<le> e" using u kb by simp
        then have kks: "k \<in> set ks" unfolding ks_mem using kp kl tk by simp
        from child [OF kp(1) _ kl tk] kb
        have "\<forall>j. k < j \<and> j < length x
               \<and> (\<forall>i. k < i \<and> i \<le> j \<longrightarrow> fold_level (x ! k) < fold_level (x ! i))
             \<longrightarrow> int j \<le> bk k"
          by simp
        from this [rule_format, of i] kp(2) i deeper have "int i \<le> bk k" by blast
        then show ?thesis using kks kp(2) by blast
      qed
      then show ?thesis using e' [of i] f3 [OF i] i l3 True by auto
    qed
  qed
  have col: "trigger_collapsed (x' ! i) = (if int i = t then False else trigger_collapsed (x ! i))"
    if i: "i < length x" for i
    using e' [of i] f3 [OF i] i l3 by simp
  have "same_structure x' x" by (rule same_structure_trans [OF ss' ss3])
  then show ?case unfolding step r using vis col by simp
qed

lemma unfold_after_fold_well_nested:
  assumes tr: "is_fold_trigger d t"
    and gF: "get_range d (FoldScope t) False = Some (t, b)"
    and wn: "well_nested d t b"
    and vt: "isVisible d t"
    and vs: "\<forall>i<length d. t < int i \<and> int i \<le> b \<longrightarrow> visible (d ! i)"
  shows "\<exists>d1 d2. FoldScope_fold d (FoldScope t) = Some d1
           \<and> FoldScope_unfold d1 (FoldScope t) = Some d2
           \<and> map visible d2 = map visible d"
proof -
  let ?s = "FoldScope t"
  have t: "isValid d t" using tr by (auto simp: is_fold_trigger_def split: if_splits)
  then have ne: "d \<noteq> []" and tn: "nat t < length d" "int (nat t) = t"
    by (auto simp: isValid_def)
  from FoldScope_fold_frame [OF tr] obtain d1 e where
    f1: "FoldScope_fold d ?s = Some d1"
    and gT: "get_range d ?s True = Some (t, e)"
    and l1: "length d1 = length d"
    and n1: "\<And>i. i < length d \<Longrightarrow>
            line_text (d1 ! i) = line_text (d ! i)
          \<and> fold_level (d1 ! i) = fold_level (d ! i)
          \<and> is_trigger (d1 ! i) = is_trigger (d ! i)
          \<and> trigger_collapsed (d1 ! i) = (if int i = t then True else trigger_collapsed (d ! i))
          \<and> visible (d1 ! i) = (if t < int i \<and> int i \<le> e then False else visible (d ! i))"
    by blast
  from get_range_valid [OF t] gF gT
  have eb: "int i \<le> b" if "t < int i" "int i \<le> e" for i
    using that by (cases "isValid d (t + 1)") auto
  have ss1: "same_structure d1 d" unfolding same_structure_def using l1 n1 by simp
  have tr1: "is_fold_trigger d1 t" using tr same_structure_reads(3) [OF ss1] by simp
  have gF1: "get_range d1 ?s False = Some (t, b)"
    using same_structure_get_range [OF ss1 ne] gF by simp
  have wn1: "well_nested d1 t b"
  proof (rule same_structure_well_nested [OF ss1 _ wn])
    show "\<forall>i<length d. t < int i \<and> trigger_collapsed (d1 ! i) \<longrightarrow> trigger_collapsed (d ! i)"
      using n1 by auto
  qed
  have fuel: "length d1 - nat t < Suc (length d1)" by simp
  from unfold_fuel_well_nested [OF tr1 gF1 wn1 fuel] obtain d2 where
    u: "unfold_fuel (Suc (length d1)) d1 ?s = Some d2"
    and ss2: "same_structure d2 d1"
    and n2: "\<And>i. i < length d1 \<Longrightarrow> visible (d2 ! i)
                    = (if int i = t \<or> (t < int i \<and> int i \<le> b) then True
                       else visible (d1 ! i))"
    by blast
  have l2: "length d2 = length d" using ss2 l1 by (simp add: same_structure_def)
  have "visible (d2 ! i) = visible (d ! i)" if i: "i < length d" for i
  proof -
    have "visible (d ! i)" if "int i = t"
      using vt t that tn by (auto simp: isVisible_def)
    then show ?thesis
      using n2 [of i] n1 [OF i] vs [rule_format, OF i] eb [of i] i l1 by auto
  qed
  then have "map visible d2 = map visible d" using l2 by (intro nth_equalityI) auto
  then show ?thesis using f1 u unfolding FoldScope_unfold_def by blast
qed

lemma steps_doc_fold:
  "FoldScope_fold steps_doc_processed (FoldScope 0) = Some steps_outer_folded"
  by code_simp

lemma scenario1_unfold:
  "FoldScope_unfold scenario1_folded (FoldScope 0) = Some scenario1_processed"
  by code_simp

text \<open>
  \<^verbatim>\<open>unfold\<close> shows the lines that have the level of the line after the trigger.
  After a pass over \<open>a\<close>, a blank line and \<open>c\<close> indented by eight spaces, the blank
  line has level 2 and \<open>c\<close> level 1: \<^verbatim>\<open>fold\<close> hides both, and
  \<^verbatim>\<open>unfold\<close> shows the blank line only.
\<close>

lemma raised_doc_unfold:
  "process_document (IndentFoldDetector_detect_fold_level 4) sys_maxsize raised_doc
     = Inr raised_doc_processed
   \<and> FoldScope_init raised_doc_processed 0 = Inr (FoldScope 0)
   \<and> child_regions raised_doc_processed (FoldScope 0) = Some []
   \<and> map visible raised_doc_processed = [True, True, True]
   \<and> FoldScope_fold raised_doc_processed (FoldScope 0) = Some raised_doc_folded
   \<and> FoldScope_unfold raised_doc_folded (FoldScope 0) = Some raised_doc_unfolded
   \<and> map visible raised_doc_unfolded = [True, True, False]"
  by code_simp

text \<open>
  Claim C5, as the code has it. For the scope of every fold trigger \<^verbatim>\<open>fold\<close>
  returns, and a second \<^verbatim>\<open>fold\<close> right after it returns and changes nothing.
  \<^verbatim>\<open>fold\<close> followed by \<^verbatim>\<open>unfold\<close> returns and restores the
  visibility of every line of the document for a scope whose trigger line is visible and
  whose lines, from the line after the trigger to the last line of
  \<^verbatim>\<open>get_range(ignore_blank_lines=False)\<close>, are all visible and well nested:
  none of them is below the level of the line after the trigger, a line is a fold trigger
  exactly when the next line of the scope is deeper than it, no line is deeper than the
  line before it by more than one level, and every trigger among them is non-blank and
  not collapsed. \<^verbatim>\<open>unfold\<close> then shows the trigger line, the lines at the
  level of the scope, and descends into every child scope.
\<close>

theorem fold_twice_and_unfold_after_fold:
  "(FoldScope_init d t = Inr s \<longrightarrow>
      (\<exists>d1. FoldScope_fold d s = Some d1 \<and> FoldScope_fold d1 s = Some d1))
   \<and> (FoldScope_init d t = Inr s
       \<and> get_range d s False = Some (t, b)
       \<and> well_nested d t b
       \<and> isVisible d t
       \<and> (\<forall>i<length d. t < int i \<and> int i \<le> b \<longrightarrow> visible (d ! i))
      \<longrightarrow> (\<exists>d1 d2. FoldScope_fold d s = Some d1
             \<and> FoldScope_unfold d1 s = Some d2
             \<and> map visible d2 = map visible d))"
proof (intro conjI impI)
  assume "FoldScope_init d t = Inr s"
  then have tr: "is_fold_trigger d t" and s: "s = FoldScope t"
    by (auto simp: FoldScope_init_def split: if_splits)
  from FoldScope_fold_twice [OF tr]
  show "\<exists>d1. FoldScope_fold d s = Some d1 \<and> FoldScope_fold d1 s = Some d1"
    unfolding s .
next
  assume a: "FoldScope_init d t = Inr s
       \<and> get_range d s False = Some (t, b)
       \<and> well_nested d t b
       \<and> isVisible d t
       \<and> (\<forall>i<length d. t < int i \<and> int i \<le> b \<longrightarrow> visible (d ! i))"
  then have tr: "is_fold_trigger d t" and s: "s = FoldScope t"
    by (auto simp: FoldScope_init_def split: if_splits)
  from a have g: "get_range d (FoldScope t) False = Some (t, b)"
    and w: "well_nested d t b"
    and v: "isVisible d t"
    and h: "\<forall>i<length d. t < int i \<and> int i \<le> b \<longrightarrow> visible (d ! i)"
    unfolding s by blast+
  from unfold_after_fold_well_nested [OF tr g w v h]
  show "\<exists>d1 d2. FoldScope_fold d s = Some d1
             \<and> FoldScope_unfold d1 s = Some d2
             \<and> map visible d2 = map visible d"
    unfolding s .
qed

text \<open>
  The document with levels 0, 1, 2, 0, whose scope at line 0 holds the scope at line 1:
  folding twice, and folding then unfolding.
\<close>

theorem fold_twice_and_unfold_after_fold_witness:
  "FoldScope_init steps_doc_processed 0 = Inr (FoldScope 0)
   \<and> get_range steps_doc_processed (FoldScope 0) False = Some (0, 2)
   \<and> is_trigger (steps_doc_processed ! 1)
   \<and> FoldScope_fold steps_doc_processed (FoldScope 0) = Some steps_outer_folded
   \<and> FoldScope_fold steps_outer_folded (FoldScope 0) = Some steps_outer_folded
   \<and> map_option (map visible) (FoldScope_unfold steps_outer_folded (FoldScope 0))
       = Some (map visible steps_doc_processed)"
proof -
  let ?d = steps_doc_processed
  have i: "FoldScope_init ?d 0 = Inr (FoldScope 0)" by code_simp
  have g: "get_range ?d (FoldScope 0) False = Some (0, 2)" by code_simp
  have v: "isVisible ?d 0" by code_simp
  have t1: "is_trigger (?d ! 1)" by code_simp
  have l1: "get_fold_lvl ?d (0 + 1) \<le> fold_level (?d ! 1)
        \<and> (is_trigger (?d ! 1) \<longleftrightarrow>
             int 1 < 2 \<and> fold_level (?d ! 1) < get_fold_lvl ?d (int 1 + 1))
        \<and> (int 1 < 2 \<longrightarrow> get_fold_lvl ?d (int 1 + 1) \<le> fold_level (?d ! 1) + 1)
        \<and> (is_trigger (?d ! 1) \<longrightarrow>
              strip (line_text (?d ! 1)) \<noteq> [] \<and> \<not> trigger_collapsed (?d ! 1))
        \<and> visible (?d ! 1)"
    by code_simp
  have l2: "get_fold_lvl ?d (0 + 1) \<le> fold_level (?d ! 2)
        \<and> (is_trigger (?d ! 2) \<longleftrightarrow>
             int 2 < 2 \<and> fold_level (?d ! 2) < get_fold_lvl ?d (int 2 + 1))
        \<and> (int 2 < 2 \<longrightarrow> get_fold_lvl ?d (int 2 + 1) \<le> fold_level (?d ! 2) + 1)
        \<and> (is_trigger (?d ! 2) \<longrightarrow>
              strip (line_text (?d ! 2)) \<noteq> [] \<and> \<not> trigger_collapsed (?d ! 2))
        \<and> visible (?d ! 2)"
    by code_simp
  have w: "well_nested ?d 0 2"
    unfolding well_nested_def
  proof (intro allI impI)
    fix i :: nat assume "0 < int i \<and> int i \<le> 2"
    then have "i = 1 \<or> i = 2" by linarith
    then show "get_fold_lvl ?d (0 + 1) \<le> fold_level (?d ! i)
        \<and> (is_trigger (?d ! i) \<longleftrightarrow>
             int i < 2 \<and> fold_level (?d ! i) < get_fold_lvl ?d (int i + 1))
        \<and> (int i < 2 \<longrightarrow> get_fold_lvl ?d (int i + 1) \<le> fold_level (?d ! i) + 1)
        \<and> (is_trigger (?d ! i) \<longrightarrow>
              strip (line_text (?d ! i)) \<noteq> [] \<and> \<not> trigger_collapsed (?d ! i))"
      using l1 l2 by blast
  qed
  have h: "\<forall>i<length ?d. 0 < int i \<and> int i \<le> 2 \<longrightarrow> visible (?d ! i)"
  proof (intro allI impI)
    fix i :: nat assume "0 < int i \<and> int i \<le> 2"
    then have "i = 1 \<or> i = 2" by linarith
    then show "visible (?d ! i)" using l1 l2 by blast
  qed
  note inst = fold_twice_and_unfold_after_fold [of ?d 0 "FoldScope 0" 2]
  from inst [THEN conjunct1, THEN mp, OF i] steps_doc_fold
  have f2: "FoldScope_fold steps_outer_folded (FoldScope 0) = Some steps_outer_folded" by auto
  from inst [THEN conjunct2, THEN mp, OF conjI [OF i conjI [OF g conjI [OF w conjI [OF v h]]]]]
    steps_doc_fold
  have u: "map_option (map visible) (FoldScope_unfold steps_outer_folded (FoldScope 0))
       = Some (map visible ?d)" by auto
  from i g t1 steps_doc_fold f2 u show ?thesis by blast
qed

text \<open>
  \<^verbatim>\<open>unfold\<close> shows lines whether or not they were visible before the
  \<^verbatim>\<open>fold\<close>. In the document with levels 0, 1, 2, 0, folding the scope of line 0
  hides lines 1 and 2. The scope of line 1 is then not collapsed and has no child region;
  \<^verbatim>\<open>fold\<close> and then \<^verbatim>\<open>unfold\<close> of it leave lines 1 and 2 visible,
  which they were not before.
\<close>

theorem unfold_after_fold_counterexample:
  "FoldScope_fold steps_doc_processed (FoldScope 0) = Some steps_outer_folded
   \<and> FoldScope_init steps_outer_folded 1 = Inr (FoldScope 1)
   \<and> \<not> collapsed steps_outer_folded (FoldScope 1)
   \<and> child_regions steps_outer_folded (FoldScope 1) = Some []
   \<and> map visible steps_outer_folded = [True, False, False, True]
   \<and> FoldScope_fold steps_outer_folded (FoldScope 1) = Some steps_inner_folded
   \<and> FoldScope_unfold steps_inner_folded (FoldScope 1) = Some steps_inner_unfolded
   \<and> map visible steps_inner_unfolded = [True, True, True, True]"
  by code_simp

section \<open>The debug dump\<close>

lemma print_tree_from_upt:
  "k \<le> length d \<Longrightarrow>
   print_tree_from d pb (int k) =
     concat (map (\<lambda>i.
        if is_trigger (d ! i)
        then [''l'' @ str_int (int i + 1) @ '':'' @ str_int (fold_level (d ! i))
               @ (if trigger_collapsed (d ! i) then ''+'' else ''-'')
               @ (if visible (d ! i) then ''V'' else ''I'')]
        else if pb
        then [''l'' @ str_int (int i + 1) @ '':'' @ str_int (fold_level (d ! i))
               @ (if visible (d ! i) then ''V'' else ''I'')]
        else []) [k..<length d])"
proof (induction "length d - k" arbitrary: k)
  case 0
  then have "\<not> isValid d (int k)" by (simp add: isValid_def)
  with 0 show ?case by (simp add: print_tree_from.simps [of d pb "int k"])
next
  case (Suc n)
  then have k: "k < length d" by simp
  then have v: "isValid d (int k)" by (simp add: isValid_def)
  have upt: "[k..<length d] = k # [Suc k..<length d]" using k by (simp add: upt_rec)
  show ?case
  proof (cases "Suc k < length d")
    case True
    then have nx: "block_next d (int k) = int (Suc k)"
      using v by (simp add: block_next_def isValid_def)
    have ih: "print_tree_from d pb (int (Suc k)) = concat (map (\<lambda>i.
        if is_trigger (d ! i)
        then [''l'' @ str_int (int i + 1) @ '':'' @ str_int (fold_level (d ! i))
               @ (if trigger_collapsed (d ! i) then ''+'' else ''-'')
               @ (if visible (d ! i) then ''V'' else ''I'')]
        else if pb
        then [''l'' @ str_int (int i + 1) @ '':'' @ str_int (fold_level (d ! i))
               @ (if visible (d ! i) then ''V'' else ''I'')]
        else []) [Suc k..<length d])"
      using Suc.hyps(1) [of "Suc k"] Suc.hyps(2) True by simp
    show ?thesis
      apply (subst print_tree_from.simps)
      apply (subst upt)
      apply (simp only: v nx ih if_True)
      apply (simp add: Let_def is_fold_trigger_def get_fold_trigger_state_def get_fold_lvl_def
          isVisible_def blockNumber_def v)
      done
  next
    case False
    then have nx: "block_next d (int k) = -1"
      using v by (simp add: block_next_def isValid_def)
    have e: "print_tree_from d pb (-1) = []"
      by (simp add: print_tree_from.simps [of d pb "-1"] isValid_def)
    have u: "[Suc k..<length d] = []" using False by simp
    show ?thesis
      apply (subst print_tree_from.simps)
      apply (subst upt)
      apply (simp only: v nx e u if_True)
      apply (simp add: Let_def is_fold_trigger_def get_fold_trigger_state_def get_fold_lvl_def
          isVisible_def blockNumber_def v)
      done
  qed
qed

text \<open>
  Claim C10, as the code has it. With \<^verbatim>\<open>print_blocks\<close> set,
  \<^verbatim>\<open>print_tree\<close> writes exactly one record per line of the document, in
  document order: \<open>l\<close>, the one-based line number, a colon, the fold level, for a
  trigger \<open>+\<close> when it is collapsed and \<open>-\<close> when it is expanded (nothing for a line
  that is not a trigger), then \<open>V\<close> for a visible and \<open>I\<close> for an invisible line.
  Without \<^verbatim>\<open>print_blocks\<close> (the default) only the trigger lines are written,
  in the same format. The function returns the records only; it writes nothing to the
  document.
\<close>

theorem print_tree_records:
  "print_tree d True =
     map (\<lambda>i. ''l'' @ str_int (int i + 1) @ '':'' @ str_int (fold_level (d ! i))
               @ (if is_trigger (d ! i)
                  then (if trigger_collapsed (d ! i) then ''+'' else ''-'') else [])
               @ (if visible (d ! i) then ''V'' else ''I'')) [0..<length d]
   \<and> print_tree d False =
     map (\<lambda>i. ''l'' @ str_int (int i + 1) @ '':'' @ str_int (fold_level (d ! i))
               @ (if trigger_collapsed (d ! i) then ''+'' else ''-'')
               @ (if visible (d ! i) then ''V'' else ''I''))
         (filter (\<lambda>i. is_trigger (d ! i)) [0..<length d])"
proof (cases "d = []")
  case True
  then show ?thesis
    by (simp add: print_tree_def firstBlock_def isValid_def print_tree_from.simps [of "[]" _ "-1"])
next
  case False
  then have fb: "firstBlock d = int 0" by (simp add: firstBlock_def isValid_def)
  have c1: "concat (map F xs) = map G xs" if "\<And>i. F i = [G i]"
    for F :: "nat \<Rightarrow> string list" and G :: "nat \<Rightarrow> string" and xs
    using that by (induction xs) auto
  have c2: "concat (map F xs) = map G (filter P xs)" if "\<And>i. F i = (if P i then [G i] else [])"
    for P :: "nat \<Rightarrow> bool" and F :: "nat \<Rightarrow> string list" and G :: "nat \<Rightarrow> string" and xs
    using that by (induction xs) auto
  have a: "print_tree d True = map (\<lambda>i. ''l'' @ str_int (int i + 1) @ '':'' @ str_int (fold_level (d ! i))
               @ (if is_trigger (d ! i)
                  then (if trigger_collapsed (d ! i) then ''+'' else ''-'') else [])
               @ (if visible (d ! i) then ''V'' else ''I'')) [0..<length d]"
    unfolding print_tree_def fb
    by (subst print_tree_from_upt, simp, rule c1) simp
  have b: "print_tree d False = map (\<lambda>i. ''l'' @ str_int (int i + 1) @ '':'' @ str_int (fold_level (d ! i))
               @ (if trigger_collapsed (d ! i) then ''+'' else ''-'')
               @ (if visible (d ! i) then ''V'' else ''I''))
         (filter (\<lambda>i. is_trigger (d ! i)) [0..<length d])"
    unfolding print_tree_def fb
    by (subst print_tree_from_upt, simp, rule c2) simp
  from a b show ?thesis by blast
qed

text \<open>
  The claim as the spec words it fails on the processed example document: the default call
  writes one record for four lines, and the expanded trigger on line 0 is written with
  \<open>-\<close>, also when every line is printed.
\<close>

theorem print_tree_default_counterexample:
  "length scenario1_processed = 4
   \<and> is_fold_trigger scenario1_processed 0
   \<and> \<not> collapsed scenario1_processed (FoldScope 0)
   \<and> print_tree scenario1_processed False = [''l1:0-V'']
   \<and> print_tree scenario1_processed True = [''l1:0-V'', ''l2:1V'', ''l3:1V'', ''l4:0V'']"
  by code_simp

end
